theory Spec2Isabelle
  imports Main "HOL-Library.Word" "HOL-Library.AList"
begin

section \<open>JavaScript strings\<close>

text \<open>
  A JavaScript string is a sequence of UTF-16 code units; \<open>length\<close>, \<open>substring\<close>,
  \<open>indexOf\<close> and the regular expressions of the source (none has the \<open>u\<close> flag) all
  count and compare code units. \<open>js\<close> turns an ASCII literal into such a sequence.
\<close>

type_synonym code_unit = "16 word"
type_synonym jsstr = "code_unit list"

definition js :: "string \<Rightarrow> jsstr" where
  "js s = map of_char s"

text \<open>\<open>s.substring(a, b)\<close>: both indices are clamped to the length and swapped when \<open>a > b\<close>.\<close>

definition substring :: "jsstr \<Rightarrow> nat \<Rightarrow> nat \<Rightarrow> jsstr" where
  "substring s a b =
     (let a' = min a (length s); b' = min b (length s)
      in take (max a' b' - min a' b') (drop (min a' b') s))"

text \<open>
  \<open>s.indexOf(pat, pos)\<close>: the least index \<open>k \<ge> min pos (length s)\<close> at which \<open>pat\<close>
  occurs in \<open>s\<close>; \<open>None\<close> stands for the result \<open>-1\<close>.
\<close>

definition startsWith :: "jsstr \<Rightarrow> jsstr \<Rightarrow> bool" where
  "startsWith s pat = (take (length pat) s = pat)"

fun searchFrom :: "jsstr \<Rightarrow> jsstr \<Rightarrow> nat \<Rightarrow> nat option" where
  "searchFrom pat [] k = (if pat = [] then Some k else None)"
| "searchFrom pat (c # cs) k =
     (if startsWith (c # cs) pat then Some k else searchFrom pat cs (Suc k))"

definition indexOf :: "jsstr \<Rightarrow> jsstr \<Rightarrow> nat \<Rightarrow> nat option" where
  "indexOf s pat pos = searchFrom pat (drop pos s) (min pos (length s))"

definition includesStr :: "jsstr \<Rightarrow> jsstr \<Rightarrow> bool" where
  "includesStr s pat = (indexOf s pat 0 \<noteq> None)"

text \<open>
  The character classes of the source's regular expressions. \<open>\s\<close> is ECMAScript's
  WhiteSpace and LineTerminator, which is also what \<open>trim\<close> strips.
\<close>

definition isDigit :: "code_unit \<Rightarrow> bool" where
  "isDigit c = (0x30 \<le> c \<and> c \<le> 0x39)"

definition isWordChar :: "code_unit \<Rightarrow> bool" where
  "isWordChar c =
     ((0x61 \<le> c \<and> c \<le> 0x7A) \<or> (0x41 \<le> c \<and> c \<le> 0x5A) \<or> isDigit c \<or> c = 0x5F)"

definition isSpace :: "code_unit \<Rightarrow> bool" where
  "isSpace c =
     ((0x09 \<le> c \<and> c \<le> 0x0D) \<or> c = 0x20 \<or> c = 0xA0 \<or> c = 0x1680
      \<or> (0x2000 \<le> c \<and> c \<le> 0x200A) \<or> c = 0x2028 \<or> c = 0x2029 \<or> c = 0x202F
      \<or> c = 0x205F \<or> c = 0x3000 \<or> c = 0xFEFF)"

definition trim :: "jsstr \<Rightarrow> jsstr" where
  "trim s = rev (dropWhile isSpace (rev (dropWhile isSpace s)))"

text \<open>\<open>s.split('.')\<close>-style splitting at one separator code unit.\<close>

fun splitOn :: "code_unit \<Rightarrow> jsstr \<Rightarrow> jsstr list" where
  "splitOn sep [] = [[]]"
| "splitOn sep (c # cs) =
     (if c = sep then [] # splitOn sep cs
      else (case splitOn sep cs of [] \<Rightarrow> [[c]] | p # ps \<Rightarrow> (c # p) # ps))"

text \<open>\<open>Number(g)\<close> for a group \<open>g\<close> of decimal digits.\<close>

definition digitsValue :: "jsstr \<Rightarrow> nat" where
  "digitsValue g = foldl (\<lambda>n c. 10 * n + unat (c - 0x30)) 0 g"


section \<open>The environment\<close>

text \<open>
  What the engine calls but does not define is a parameter of the model. The platform's
  pure functions (\<open>String.prototype.toLowerCase\<close>, the \<open>URL\<close> constructor,
  \<open>JSON.parse\<close>) are functions of their argument. The collaborators (the HTTP fetch
  with the text extraction and digest that follow it, the storage tables, the chat
  completion, the random noise generator and the clock) answer as a function of the
  calls and emissions made so far and of their argument; a thrown error is \<open>Inl\<close> of
  its message.
\<close>

record url =
  protocol :: jsstr
  hostname :: jsstr
  href :: jsstr

datatype json =
    JString jsstr
  | JNull
  | JBool bool
  | JNumber int
  | JArray "json list"
  | JObject "(jsstr \<times> json) list"

type_synonym jsobject = "(jsstr \<times> json) list"

record target =
  target_id :: jsstr
  target_url :: jsstr
  target_keywords :: "jsstr list"
  target_name :: "jsstr option"
  last_hash :: "jsstr option"

record signal_row =
  row_target_id :: jsstr
  row_user_id :: jsstr
  row_content :: jsstr
  row_matched_keywords :: "jsstr list"
  ai_summary :: json
  ai_threat_level :: json
  ai_category :: json
  source_url :: jsstr

record signal_data =
  data_id :: jsstr
  targetName :: jsstr
  data_url :: jsstr
  data_keywords :: "jsstr list"
  data_content :: jsstr
  data_ai :: "jsobject option"
  timestamp :: jsstr

datatype event =
    GetActiveByUser jsstr
  | Fetch jsstr
  | UpdateLastCheck jsstr jsstr
  | ChatCompletion "jsstr list" jsstr
  | SignalsCreate signal_row
  | OnSignal signal_data
  | OnNoise jsstr
  | Sleep nat

record env =
  toLowerCase :: "jsstr \<Rightarrow> jsstr"
  parseURL :: "jsstr \<Rightarrow> url option"
  parseJSON :: "jsstr \<Rightarrow> jsobject option"
  fetchPage :: "event list \<Rightarrow> jsstr \<Rightarrow> jsstr + (jsstr \<times> jsstr)"
  getActiveByUser :: "event list \<Rightarrow> jsstr \<Rightarrow> jsstr + target list"
  updateLastCheck :: "event list \<Rightarrow> jsstr \<Rightarrow> jsstr \<Rightarrow> jsstr option"
  signalsCreate :: "event list \<Rightarrow> signal_row \<Rightarrow> jsstr + jsstr"
  chatCompletion :: "event list \<Rightarrow> jsstr list \<Rightarrow> jsstr \<Rightarrow> jsstr + jsstr"
  generateNoise :: "event list \<Rightarrow> jsstr"
  isoNow :: "event list \<Rightarrow> jsstr"


section \<open>URL guard: \<open>validateUrl\<close> (server/lib/scraper.js)\<close>

definition localhostPatterns :: "jsstr list" where
  "localhostPatterns =
     [js ''localhost'', js ''127.0.0.1'', js ''0.0.0.0'', js ''::1'', js ''[::1]'']"

definition blockedHosts :: "jsstr list" where
  "blockedHosts =
     [js ''metadata.google.internal'', js ''metadata.gke.internal'',
      js ''kubernetes.default.svc'']"

text \<open>
  \<open>hostname.match(/^(\d{1,3})\.(\d{1,3})\.(\d{1,3})\.(\d{1,3})$/)\<close> followed by
  \<open>const [, a, b] = match.map(Number)\<close>: the first two groups as numbers when the host
  is four dot-separated groups of one to three digits, \<open>None\<close> when the match is null.
\<close>

definition isOctetGroup :: "jsstr \<Rightarrow> bool" where
  "isOctetGroup g = (1 \<le> length g \<and> length g \<le> 3 \<and> list_all isDigit g)"

definition ipMatch :: "jsstr \<Rightarrow> (nat \<times> nat) option" where
  "ipMatch host =
     (case splitOn 0x2E host of
        [g1, g2, g3, g4] \<Rightarrow>
          if isOctetGroup g1 \<and> isOctetGroup g2 \<and> isOctetGroup g3 \<and> isOctetGroup g4
          then Some (digitsValue g1, digitsValue g2) else None
      | _ \<Rightarrow> None)"

definition errInvalidFormat :: jsstr where
  "errInvalidFormat = js ''Invalid URL format''"

definition errProtocol :: jsstr where
  "errProtocol = js ''Only HTTP/HTTPS protocols allowed''"

definition errLocalhost :: jsstr where
  "errLocalhost = js ''Access to localhost is not allowed''"

definition errPrivate10 :: jsstr where
  "errPrivate10 = js ''Access to private IP range (10.x.x.x) is not allowed''"

definition errPrivate172 :: jsstr where
  "errPrivate172 = js ''Access to private IP range (172.16-31.x.x) is not allowed''"

definition errPrivate192 :: jsstr where
  "errPrivate192 = js ''Access to private IP range (192.168.x.x) is not allowed''"

definition errLinkLocal :: jsstr where
  "errLinkLocal = js ''Access to link-local/metadata IP is not allowed''"

definition errLoopback :: jsstr where
  "errLoopback = js ''Access to loopback IP is not allowed''"

definition errMetadata :: jsstr where
  "errMetadata = js ''Access to cloud metadata endpoints is not allowed''"

definition ipRangeError :: "nat \<Rightarrow> nat \<Rightarrow> jsstr option" where
  "ipRangeError a b =
     (if a = 10 then Some errPrivate10
      else if a = 172 \<and> b \<ge> 16 \<and> b \<le> 31 then Some errPrivate172
      else if a = 192 \<and> b = 168 then Some errPrivate192
      else if a = 169 \<and> b = 254 then Some errLinkLocal
      else if a = 127 then Some errLoopback
      else None)"

definition checkHost :: "jsstr \<Rightarrow> jsstr option" where
  "checkHost host =
     (if host \<in> set localhostPatterns then Some errLocalhost
      else case (case ipMatch host of None \<Rightarrow> None | Some (a, b) \<Rightarrow> ipRangeError a b) of
             Some e \<Rightarrow> Some e
           | None \<Rightarrow> if host \<in> set blockedHosts then Some errMetadata else None)"

definition validateUrl :: "env \<Rightarrow> jsstr \<Rightarrow> jsstr + jsstr" where
  "validateUrl E urlString =
     (case parseURL E urlString of
        None \<Rightarrow> Inl errInvalidFormat
      | Some u \<Rightarrow>
          if protocol u \<notin> set [js ''http:'', js ''https:''] then Inl errProtocol
          else (case checkHost (toLowerCase E (hostname u)) of
                  Some e \<Rightarrow> Inl e
                | None \<Rightarrow> Inr (href u)))"


section \<open>Content analyzer: \<open>scrape\<close>, \<open>checkForSignal\<close>, \<open>extractRelevantContent\<close>\<close>

definition CONTEXT_RADIUS :: nat where
  "CONTEXT_RADIUS = 200"

definition MAX_OCCURRENCES :: nat where
  "MAX_OCCURRENCES = 3"

definition MAX_EXCERPT_LENGTH :: nat where
  "MAX_EXCERPT_LENGTH = 3000"

text \<open>
  \<open>scrape\<close>: the URL is validated first; the request and everything after it in the
  \<open>try\<close> block (status and size checks, text extraction, SHA-256 digest) is the
  environment's \<open>fetchPage\<close>, which throws or yields the text and its hash.
\<close>

definition scrape :: "env \<Rightarrow> event list \<Rightarrow> jsstr \<Rightarrow> event list \<times> (jsstr + jsstr \<times> jsstr)" where
  "scrape E h urlString =
     (case validateUrl E urlString of
        Inl e \<Rightarrow> ([], Inl e)
      | Inr validatedUrl \<Rightarrow> ([Fetch validatedUrl], fetchPage E h validatedUrl))"

text \<open>The body of the \<open>while\<close> loop of \<open>extractRelevantContent\<close> for an occurrence at \<open>index\<close>.\<close>

definition excerptAt :: "jsstr \<Rightarrow> jsstr \<Rightarrow> nat \<Rightarrow> jsstr" where
  "excerptAt text keyword index =
     (let start = nat (max 0 (int index - int CONTEXT_RADIUS));
          stop = min (length text) (index + length keyword + CONTEXT_RADIUS);
          excerpt = trim (substring text start stop);
          excerpt = (if start > 0 then js ''...'' @ excerpt else excerpt);
          excerpt = (if stop < length text then excerpt @ js ''...'' else excerpt)
      in excerpt)"

text \<open>
  The \<open>while\<close> loop for one keyword, from the current \<open>index\<close> and \<open>occurrences\<close>;
  the result is the list of excerpts it pushes.
\<close>

function excerptLoop :: "jsstr \<Rightarrow> jsstr \<Rightarrow> jsstr \<Rightarrow> jsstr \<Rightarrow> nat \<Rightarrow> nat \<Rightarrow> jsstr list" where
  "excerptLoop text lowerText keyword lowerKeyword index occurrences =
     (case indexOf lowerText lowerKeyword index of
        None \<Rightarrow> []
      | Some i \<Rightarrow>
          if occurrences < MAX_OCCURRENCES
          then excerptAt text keyword i
                 # excerptLoop text lowerText keyword lowerKeyword (i + length keyword)
                     (Suc occurrences)
          else [])"
  by pat_completeness auto
termination
  by (relation "measure (\<lambda>(text, lowerText, keyword, lowerKeyword, index, occurrences).
        MAX_OCCURRENCES - occurrences)") auto

fun joinWith :: "jsstr \<Rightarrow> jsstr list \<Rightarrow> jsstr" where
  "joinWith sep [] = []"
| "joinWith sep [x] = x"
| "joinWith sep (x # y # ys) = x @ sep @ joinWith sep (y # ys)"

definition excerptSeparator :: jsstr where
  "excerptSeparator = [0x0A, 0x0A] @ js ''---'' @ [0x0A, 0x0A]"

definition extractRelevantContent :: "env \<Rightarrow> jsstr \<Rightarrow> jsstr list \<Rightarrow> jsstr" where
  "extractRelevantContent E text kws =
     (let excerpts = concat (map (\<lambda>keyword.
            excerptLoop text (toLowerCase E text) keyword (toLowerCase E keyword) 0 0) kws)
      in substring (joinWith excerptSeparator excerpts) 0 MAX_EXCERPT_LENGTH)"

record scan_result =
  changed :: bool
  matches :: "jsstr list"
  content :: jsstr
  hash :: jsstr

text \<open>\<open>lastHash\<close> is \<open>None\<close> for \<open>null\<close>: no stored hash, or the force scan's argument.\<close>

definition checkForSignal ::
  "env \<Rightarrow> event list \<Rightarrow> jsstr \<Rightarrow> jsstr list \<Rightarrow> jsstr option \<Rightarrow> event list \<times> (jsstr + scan_result)" where
  "checkForSignal E h urlString kws lastHash =
     (case scrape E h urlString of
        (evs, Inl e) \<Rightarrow> (evs, Inl e)
      | (evs, Inr (text, hash')) \<Rightarrow>
          (let changed' = (Some hash' \<noteq> lastHash) in
           if \<not> changed'
           then (evs, Inr \<lparr>changed = False, matches = [], content = [], hash = hash'\<rparr>)
           else
             (let matches' = filter (\<lambda>keyword.
                    includesStr (toLowerCase E text) (toLowerCase E keyword)) kws in
              if length matches' = 0
              then (evs, Inr \<lparr>changed = True, matches = [], content = [], hash = hash'\<rparr>)
              else (evs, Inr \<lparr>changed = True, matches = matches',
                               content = extractRelevantContent E text matches',
                               hash = hash'\<rparr>))))"


section \<open>AI operations: \<open>sanitizeInput\<close>, \<open>sanitizeKeywords\<close>, \<open>analyzeSignal\<close>\<close>

definition isControl :: "code_unit \<Rightarrow> bool" where
  "isControl c = (c \<le> 0x1F \<or> c = 0x7F)"

text \<open>\<open>.replace(/```/g, '---')\<close>: every non-overlapping fence, left to right.\<close>

fun replaceFences :: "jsstr \<Rightarrow> jsstr" where
  "replaceFences (a # b # c # cs) =
     (if a = 0x60 \<and> b = 0x60 \<and> c = 0x60 then js ''---'' @ replaceFences cs
      else a # replaceFences (b # c # cs))"
| "replaceFences [a, b] = [a, b]"
| "replaceFences [a] = [a]"
| "replaceFences [] = []"

definition sanitizeInput :: "jsstr \<Rightarrow> jsstr" where
  "sanitizeInput text =
     substring (replaceFences (filter (\<lambda>c. \<not> isControl c) text)) 0 2000"

text \<open>The class \<open>[^\w\s\u4e00-\u9fa5-]\<close> removes every code unit that is not kept here.\<close>

definition isKeptInKeyword :: "code_unit \<Rightarrow> bool" where
  "isKeptInKeyword c =
     (isWordChar c \<or> isSpace c \<or> (0x4E00 \<le> c \<and> c \<le> 0x9FA5) \<or> c = 0x2D)"

definition sanitizeKeywords :: "jsstr list \<Rightarrow> jsstr list" where
  "sanitizeKeywords kws =
     filter (\<lambda>k. length k > 0 \<and> length k < 50) (map (\<lambda>k. trim (filter isKeptInKeyword k)) kws)"

text \<open>
  \<open>response.match(/\{[\s\S]*?\}/)\<close>: the leftmost opening brace that has a closing brace
  after it, up to the first such closing brace.
\<close>

definition jsonMatch :: "jsstr \<Rightarrow> jsstr option" where
  "jsonMatch response =
     (case dropWhile (\<lambda>c. c \<noteq> 0x7B) response of
        [] \<Rightarrow> None
      | b # rest \<Rightarrow>
          if 0x7D \<in> set rest then Some (b # takeWhile (\<lambda>c. c \<noteq> 0x7D) rest @ [0x7D])
          else None)"

definition UNKNOWN :: jsstr where
  "UNKNOWN = js ''UNKNOWN''"

definition mkAnalysis :: "jsstr \<Rightarrow> jsstr \<Rightarrow> jsstr \<Rightarrow> jsobject" where
  "mkAnalysis s t c =
     [(js ''summary'', JString s), (js ''threat_level'', JString t), (js ''category'', JString c)]"

text \<open>The three literal objects \<open>analyzeSignal\<close> returns without validating a reply.\<close>

definition noKeywordsAnalysis :: jsobject where
  "noKeywordsAnalysis =
     mkAnalysis [0x7121, 0x6709, 0x6548, 0x95DC, 0x9375, 0x5B57] UNKNOWN (js ''ERROR'')"

definition notJsonAnalysis :: jsobject where
  "notJsonAnalysis =
     mkAnalysis [0x8A0A, 0x865F, 0x5206, 0x6790, 0x5931, 0x6557] (js ''MEDIUM'') UNKNOWN"

definition offlineAnalysis :: jsobject where
  "offlineAnalysis =
     mkAnalysis [0x5206, 0x6790, 0x7CFB, 0x7D71, 0x96E2, 0x7DDA] UNKNOWN (js ''ERROR'')"

definition abnormalSummary :: jsstr where
  "abnormalSummary = [0x5206, 0x6790, 0x7D50, 0x679C, 0x7570, 0x5E38]"

definition validThreatLevels :: "jsstr list" where
  "validThreatLevels = [js ''LOW'', js ''MEDIUM'', js ''HIGH'', js ''CRITICAL'']"

text \<open>
  The validation of the parsed reply. A property read is \<open>map_of\<close> (\<open>None\<close> for
  \<open>undefined\<close>), an assignment is \<open>AList.update\<close>.
\<close>

definition validateThreat :: "jsobject \<Rightarrow> jsobject" where
  "validateThreat result =
     (case map_of result (js ''threat_level'') of
        Some (JString t) \<Rightarrow>
          if t \<in> set validThreatLevels then result
          else AList.update (js ''threat_level'') (JString UNKNOWN) result
      | _ \<Rightarrow> AList.update (js ''threat_level'') (JString UNKNOWN) result)"

definition validateSummary :: "jsobject \<Rightarrow> jsobject" where
  "validateSummary result =
     (case map_of result (js ''summary'') of
        Some (JString s) \<Rightarrow>
          if s = [] then AList.update (js ''summary'') (JString abnormalSummary) result
          else if length s > 100
          then AList.update (js ''summary'') (JString (substring s 0 100)) result
          else result
      | _ \<Rightarrow> AList.update (js ''summary'') (JString abnormalSummary) result)"

definition validateCategory :: "jsobject \<Rightarrow> jsobject" where
  "validateCategory result =
     (case map_of result (js ''category'') of
        Some (JString c) \<Rightarrow>
          if c = [] then AList.update (js ''category'') (JString UNKNOWN) result else result
      | _ \<Rightarrow> AList.update (js ''category'') (JString UNKNOWN) result)"

text \<open>
  \<open>analyzeSignal\<close>. The request carries a constant system prompt and a user prompt that
  is a fixed template around the sanitized keywords and the sanitized content, so the
  call is recorded with these two. \<open>Inl\<close> from \<open>chatCompletion\<close> is any exception
  before \<open>response\<close> is a string; \<open>None\<close> from \<open>parseJSON\<close> is \<open>JSON.parse\<close> throwing.
  Both reach the \<open>catch\<close> block.
\<close>

definition analyzeSignal :: "env \<Rightarrow> event list \<Rightarrow> jsstr \<Rightarrow> jsstr list \<Rightarrow> event list \<times> jsobject" where
  "analyzeSignal E h content' kws =
     (let sanitizedContent = sanitizeInput content';
          sanitizedKeywords = sanitizeKeywords kws
      in if length sanitizedKeywords = 0 then ([], noKeywordsAnalysis)
         else
           (case chatCompletion E h sanitizedKeywords sanitizedContent of
              Inl e \<Rightarrow> ([ChatCompletion sanitizedKeywords sanitizedContent], offlineAnalysis)
            | Inr response \<Rightarrow>
                ([ChatCompletion sanitizedKeywords sanitizedContent],
                 (case jsonMatch response of
                    None \<Rightarrow> notJsonAnalysis
                  | Some m \<Rightarrow>
                      (case parseJSON E m of
                         None \<Rightarrow> offlineAnalysis
                       | Some result \<Rightarrow>
                           validateCategory (validateSummary (validateThreat result)))))))"


section \<open>Signal engine: the tick, \<open>forceScan\<close> and the session registry\<close>

text \<open>\<open>x || d\<close> on a property read, with JavaScript's truthiness.\<close>

fun truthy :: "json \<Rightarrow> bool" where
  "truthy (JString s) = (s \<noteq> [])"
| "truthy JNull = False"
| "truthy (JBool b) = b"
| "truthy (JNumber n) = (n \<noteq> 0)"
| "truthy (JArray xs) = True"
| "truthy (JObject kvs) = True"

definition orElse :: "json option \<Rightarrow> json \<Rightarrow> json" where
  "orElse v d = (case v of None \<Rightarrow> d | Some x \<Rightarrow> if truthy x then x else d)"

text \<open>\<open>aiAnalysis?.f\<close>: \<open>undefined\<close> when \<open>aiAnalysis\<close> is \<open>null\<close>.\<close>

definition optField :: "jsobject option \<Rightarrow> jsstr \<Rightarrow> json option" where
  "optField obj f = (case obj of None \<Rightarrow> None | Some kvs \<Rightarrow> map_of kvs f)"

text \<open>\<open>target.name || target.url\<close>.\<close>

definition displayName :: "target \<Rightarrow> jsstr" where
  "displayName t =
     (case target_name t of None \<Rightarrow> target_url t | Some n \<Rightarrow> if n \<noteq> [] then n else target_url t)"

definition errorLine :: "target \<Rightarrow> jsstr \<Rightarrow> jsstr" where
  "errorLine t msg = js ''[ERROR] '' @ displayName t @ js '' - '' @ msg"

definition updatedLine :: "target \<Rightarrow> jsstr" where
  "updatedLine t = js ''[SCAN] '' @ displayName t @ js '' - Content updated, no signal''"

definition noChangeLine :: "target \<Rightarrow> jsstr" where
  "noChangeLine t = js ''[SCAN] '' @ displayName t @ js '' - No change detected''"

definition signalRow :: "jsstr \<Rightarrow> target \<Rightarrow> scan_result \<Rightarrow> jsobject option \<Rightarrow> signal_row" where
  "signalRow userId t result aiAnalysis =
     \<lparr>row_target_id = target_id t,
      row_user_id = userId,
      row_content = content result,
      row_matched_keywords = matches result,
      ai_summary = orElse (optField aiAnalysis (js ''summary'')) JNull,
      ai_threat_level = orElse (optField aiAnalysis (js ''threat_level'')) (JString UNKNOWN),
      ai_category = orElse (optField aiAnalysis (js ''category'')) (JString UNKNOWN),
      source_url = target_url t\<rparr>"

definition signalData :: "jsstr \<Rightarrow> target \<Rightarrow> scan_result \<Rightarrow> jsobject option \<Rightarrow> jsstr \<Rightarrow> signal_data" where
  "signalData signalId t result aiAnalysis now =
     \<lparr>data_id = signalId,
      targetName = displayName t,
      data_url = target_url t,
      data_keywords = matches result,
      data_content = content result,
      data_ai = aiAnalysis,
      timestamp = now\<rparr>"

text \<open>
  Saving the signal and notifying the client, shared by the tick and the force scan:
  \<open>h\<close> is the history before, the result the events added. An exception from
  \<open>signals.create\<close> is returned as \<open>Inl\<close> for the enclosing \<open>catch\<close>.
\<close>

definition saveAndNotify ::
  "env \<Rightarrow> jsstr \<Rightarrow> event list \<Rightarrow> target \<Rightarrow> scan_result \<Rightarrow> jsobject option \<Rightarrow> event list \<times> jsstr option" where
  "saveAndNotify E userId h t result aiAnalysis =
     (let row = signalRow userId t result aiAnalysis in
      case signalsCreate E h row of
        Inl e \<Rightarrow> ([SignalsCreate row], Some e)
      | Inr signalId \<Rightarrow>
          ([SignalsCreate row,
            OnSignal (signalData signalId t result aiAnalysis (isoNow E (h @ [SignalsCreate row])))],
           None))"

text \<open>\<open>let aiAnalysis = null; if (result.content) aiAnalysis = await ai.analyzeSignal(...)\<close>.\<close>

definition analyzeIfContent :: "env \<Rightarrow> event list \<Rightarrow> scan_result \<Rightarrow> event list \<times> jsobject option" where
  "analyzeIfContent E h result =
     (if content result \<noteq> []
      then (case analyzeSignal E h (content result) (matches result) of (evs, a) \<Rightarrow> (evs, Some a))
      else ([], None))"

text \<open>
  The \<open>try\<close> block of the tick for one target: the events it adds after history \<open>h\<close>
  and the exception that left it, if any.
\<close>

definition tryTarget :: "env \<Rightarrow> jsstr \<Rightarrow> event list \<Rightarrow> target \<Rightarrow> event list \<times> jsstr option" where
  "tryTarget E userId h t =
     (case checkForSignal E h (target_url t) (target_keywords t) (last_hash t) of
        (ev1, Inl e) \<Rightarrow> (ev1, Some e)
      | (ev1, Inr result) \<Rightarrow>
          (let ev2 = ev1 @ [UpdateLastCheck (target_id t) (hash result)] in
           case updateLastCheck E (h @ ev1) (target_id t) (hash result) of
             Some e \<Rightarrow> (ev2, Some e)
           | None \<Rightarrow>
               if length (matches result) > 0
               then
                 (case analyzeIfContent E (h @ ev2) result of
                    (ev3, aiAnalysis) \<Rightarrow>
                      (case saveAndNotify E userId (h @ ev2 @ ev3) t result aiAnalysis of
                         (ev4, exc) \<Rightarrow> (ev2 @ ev3 @ ev4, exc)))
               else if changed result then (ev2 @ [OnNoise (updatedLine t)], None)
               else (ev2 @ [OnNoise (noChangeLine t)], None)))"

text \<open>One iteration of the tick's \<open>for\<close> loop: \<open>try\<close>, \<open>catch\<close>, then the one-second pause.\<close>

definition processTarget :: "env \<Rightarrow> jsstr \<Rightarrow> event list \<Rightarrow> target \<Rightarrow> event list" where
  "processTarget E userId h t =
     (case tryTarget E userId h t of
        (evs, None) \<Rightarrow> evs @ [Sleep 1000]
      | (evs, Some e) \<Rightarrow> evs @ [OnNoise (errorLine t e)] @ [Sleep 1000])"

fun scanTargets :: "env \<Rightarrow> jsstr \<Rightarrow> event list \<Rightarrow> target list \<Rightarrow> event list" where
  "scanTargets E userId h [] = []"
| "scanTargets E userId h (t # ts) =
     (let evs = processTarget E userId h t in evs @ scanTargets E userId (h @ evs) ts)"

text \<open>
  The interval callback of \<open>startMonitoring\<close>, for the captured session flag
  \<open>session.isRunning\<close>: the events one tick adds after history \<open>h\<close>.
\<close>

definition tick :: "env \<Rightarrow> bool \<Rightarrow> jsstr \<Rightarrow> event list \<Rightarrow> event list" where
  "tick E running userId h =
     (if \<not> running then []
      else
        (case getActiveByUser E h userId of
           Inl e \<Rightarrow> [GetActiveByUser userId, OnNoise (js ''[SYSTEM ERROR] '' @ e)]
         | Inr userTargets \<Rightarrow>
             if length userTargets = 0
             then [GetActiveByUser userId, OnNoise (generateNoise E (h @ [GetActiveByUser userId]))]
             else
               (let evs = GetActiveByUser userId
                       # scanTargets E userId (h @ [GetActiveByUser userId]) userTargets
                in evs @ [OnNoise (generateNoise E (h @ evs))])))"

definition scanningLine :: "target \<Rightarrow> jsstr" where
  "scanningLine t = js ''[SCANNING] '' @ displayName t"

definition completeLine :: "target \<Rightarrow> jsstr" where
  "completeLine t = js ''[COMPLETE] '' @ displayName t @ js '' - No signal''"

text \<open>
  The inner \<open>try\<close> block of \<open>forceScan\<close> for one target; \<open>checkForSignal\<close> gets \<open>null\<close>
  as the previous hash.
\<close>

definition tryForceTarget :: "env \<Rightarrow> jsstr \<Rightarrow> event list \<Rightarrow> target \<Rightarrow> event list \<times> jsstr option" where
  "tryForceTarget E userId h t =
     (case checkForSignal E h (target_url t) (target_keywords t) None of
        (ev1, Inl e) \<Rightarrow> (ev1, Some e)
      | (ev1, Inr result) \<Rightarrow>
          (let ev2 = ev1 @ [UpdateLastCheck (target_id t) (hash result)] in
           case updateLastCheck E (h @ ev1) (target_id t) (hash result) of
             Some e \<Rightarrow> (ev2, Some e)
           | None \<Rightarrow>
               if length (matches result) > 0
               then
                 (case analyzeSignal E (h @ ev2) (content result) (matches result) of
                    (ev3, a) \<Rightarrow>
                      (case saveAndNotify E userId (h @ ev2 @ ev3) t result (Some a) of
                         (ev4, exc) \<Rightarrow> (ev2 @ ev3 @ ev4, exc)))
               else (ev2 @ [OnNoise (completeLine t)], None)))"

definition forceTarget :: "env \<Rightarrow> jsstr \<Rightarrow> event list \<Rightarrow> target \<Rightarrow> event list" where
  "forceTarget E userId h t =
     (let ev0 = [OnNoise (scanningLine t)] in
      case tryForceTarget E userId (h @ ev0) t of
        (evs, None) \<Rightarrow> ev0 @ evs
      | (evs, Some e) \<Rightarrow> ev0 @ evs @ [OnNoise (errorLine t e)])"

fun forceTargets :: "env \<Rightarrow> jsstr \<Rightarrow> event list \<Rightarrow> target list \<Rightarrow> event list" where
  "forceTargets E userId h [] = []"
| "forceTargets E userId h (t # ts) =
     (let evs = forceTarget E userId h t in evs @ forceTargets E userId (h @ evs) ts)"

definition forceScanEvents :: "env \<Rightarrow> jsstr \<Rightarrow> event list \<Rightarrow> event list" where
  "forceScanEvents E userId h =
     (let ev0 = [OnNoise (js ''[MANUAL SCAN INITIATED]'')] in
      case getActiveByUser E (h @ ev0) userId of
        Inl e \<Rightarrow> ev0 @ [GetActiveByUser userId, OnNoise (js ''[SCAN FAILED] '' @ e)]
      | Inr userTargets \<Rightarrow>
          (let evs = ev0 @ [GetActiveByUser userId]
                     @ forceTargets E userId (h @ ev0 @ [GetActiveByUser userId]) userTargets
           in evs @ [OnNoise (js ''[MANUAL SCAN COMPLETE]'')]))"

text \<open>
  The module state. \<open>activeSessions\<close> is the \<open>Map\<close> from user id to session object, in
  insertion order. Session objects are shared between the map and the interval callback
  that captured them, so they live in a store, \<open>heap\<close>, and are named by their index
  there. \<open>timers\<close> holds the intervals that have been set and not cleared, each with the
  session object its callback captured. \<open>clock\<close> is \<open>Date.now()\<close>; the session id
  \<open>session_<Date.now()>\<close> is kept as \<open>SessionAt\<close> of that number. \<open>trace\<close> is
  everything called and emitted so far.
\<close>

datatype session_id = SessionAt nat

record session =
  sess_id :: session_id
  sess_userId :: jsstr
  interval :: "nat option"
  isRunning :: bool

record engine =
  heap :: "session list"
  activeSessions :: "(jsstr \<times> nat) list"
  timers :: "(nat \<times> nat) list"
  nextTimer :: nat
  clock :: nat
  trace :: "event list"

definition initEngine :: engine where
  "initEngine =
     \<lparr>heap = [], activeSessions = [], timers = [], nextTimer = 0, clock = 0, trace = []\<rparr>"

definition stopMonitoring :: "engine \<Rightarrow> jsstr \<Rightarrow> engine" where
  "stopMonitoring st userId =
     (case map_of (activeSessions st) userId of
        None \<Rightarrow> st
      | Some r \<Rightarrow>
          (let st1 = st\<lparr>heap := (heap st)[r := (heap st ! r)\<lparr>isRunning := False\<rparr>]\<rparr>;
               st2 = (case interval (heap st1 ! r) of
                        None \<Rightarrow> st1
                      | Some handle \<Rightarrow>
                          st1\<lparr>timers := AList.delete handle (timers st1),
                              heap := (heap st1)[r := (heap st1 ! r)\<lparr>interval := None\<rparr>]\<rparr>);
               st3 = st2\<lparr>activeSessions := AList.delete userId (activeSessions st2)\<rparr>
           in st3\<lparr>clock := clock st3 + 100\<rparr>))"

text \<open>
  \<open>startMonitoring\<close> after its double check: the session object is allocated, its
  interval is set and stored in it, and the object is put in the map.
\<close>

definition createSession :: "engine \<Rightarrow> jsstr \<Rightarrow> engine \<times> session_id" where
  "createSession st userId =
     (let sessionId = SessionAt (clock st);
          r = length (heap st);
          handle = nextTimer st;
          session = \<lparr>sess_id = sessionId, sess_userId = userId,
                     interval = Some handle, isRunning = True\<rparr>
      in (st\<lparr>heap := heap st @ [session],
             timers := timers st @ [(handle, r)],
             nextTimer := Suc handle,
             activeSessions := AList.update userId r (activeSessions st)\<rparr>,
          sessionId))"

definition startMonitoring :: "engine \<Rightarrow> jsstr \<Rightarrow> engine \<times> session_id" where
  "startMonitoring st userId =
     (let st1 = stopMonitoring st userId in
      case map_of (activeSessions st1) userId of
        Some r \<Rightarrow> (st1, sess_id (heap st1 ! r))
      | None \<Rightarrow> createSession st1 userId)"

record status =
  isActive :: bool
  sessionId :: "session_id option"

definition getStatus :: "engine \<Rightarrow> jsstr \<Rightarrow> status" where
  "getStatus st userId =
     (case map_of (activeSessions st) userId of
        None \<Rightarrow> \<lparr>isActive = False, sessionId = None\<rparr>
      | Some r \<Rightarrow> \<lparr>isActive = True, sessionId = Some (sess_id (heap st ! r))\<rparr>)"

definition forceScan :: "env \<Rightarrow> engine \<Rightarrow> jsstr \<Rightarrow> engine" where
  "forceScan E st userId = st\<lparr>trace := trace st @ forceScanEvents E userId (trace st)\<rparr>"

text \<open>An interval that is still set fires: its callback runs one tick.\<close>

definition fireTimer :: "env \<Rightarrow> engine \<Rightarrow> nat \<Rightarrow> engine" where
  "fireTimer E st handle =
     (case map_of (timers st) handle of
        None \<Rightarrow> st
      | Some r \<Rightarrow>
          st\<lparr>trace := trace st
                 @ tick E (isRunning (heap st ! r)) (sess_userId (heap st ! r)) (trace st)\<rparr>)"

datatype op = Start jsstr | Stop jsstr | Status jsstr | ForceScan jsstr | Fire nat

fun applyOp :: "env \<Rightarrow> engine \<Rightarrow> op \<Rightarrow> engine" where
  "applyOp E st (Start userId) = fst (startMonitoring st userId)"
| "applyOp E st (Stop userId) = stopMonitoring st userId"
| "applyOp E st (Status userId) = st"
| "applyOp E st (ForceScan userId) = forceScan E st userId"
| "applyOp E st (Fire handle) = fireTimer E st handle"

definition runOps :: "env \<Rightarrow> engine \<Rightarrow> op list \<Rightarrow> engine" where
  "runOps E st ops = foldl (applyOp E) st ops"


section \<open>Vocabulary of the specification\<close>

text \<open>
  The IPv4 literals of the specification's ranges, as host strings: four octets in
  decimal, without leading zeros, separated by dots. \<open>inBlockedRange\<close> reads
  10.0.0.0/8, 172.16.0.0/12, 192.168.0.0/16, 169.254.0.0/16 and 127.0.0.0/8 on the first
  two octets.
\<close>

definition digitChar :: "nat \<Rightarrow> code_unit" where
  "digitChar k = of_nat (48 + k)"

definition decimal :: "nat \<Rightarrow> jsstr" where
  "decimal n =
     (if n < 10 then [digitChar n]
      else if n < 100 then [digitChar (n div 10), digitChar (n mod 10)]
      else [digitChar (n div 100), digitChar (n div 10 mod 10), digitChar (n mod 10)])"

definition ipv4Literal :: "nat \<Rightarrow> nat \<Rightarrow> nat \<Rightarrow> nat \<Rightarrow> jsstr" where
  "ipv4Literal a b c d =
     decimal a @ js ''.'' @ decimal b @ js ''.'' @ decimal c @ js ''.'' @ decimal d"

definition inBlockedRange :: "nat \<Rightarrow> nat \<Rightarrow> bool" where
  "inBlockedRange a b =
     (a = 10 \<or> (a = 172 \<and> 16 \<le> b \<and> b \<le> 31) \<or> (a = 192 \<and> b = 168)
      \<or> (a = 169 \<and> b = 254) \<or> a = 127)"

text \<open>The localhost aliases and the metadata host names, as the host property spells them.\<close>

definition localhostAliases :: "jsstr list" where
  "localhostAliases =
     [js ''localhost'', js ''127.0.0.1'', js ''0.0.0.0'', js ''::1'', js ''[::1]'']"

definition metadataHosts :: "jsstr list" where
  "metadataHosts =
     [js ''metadata.google.internal'', js ''metadata.gke.internal'',
      js ''kubernetes.default.svc'']"

text \<open>The messages of the errors that block a request to an internal destination.\<close>

definition ssrfErrors :: "jsstr list" where
  "ssrfErrors =
     [errLocalhost, errPrivate10, errPrivate172, errPrivate192, errLinkLocal, errLoopback,
      errMetadata]"





fun isOnSignal :: "event \<Rightarrow> bool" where
  "isOnSignal (OnSignal d) = True"
| "isOnSignal _ = False"

fun isOnNoise :: "event \<Rightarrow> bool" where
  "isOnNoise (OnNoise l) = True"
| "isOnNoise _ = False"

fun isSignalsCreate :: "event \<Rightarrow> bool" where
  "isSignalsCreate (SignalsCreate r) = True"
| "isSignalsCreate _ = False"

fun isUpdateLastCheck :: "event \<Rightarrow> bool" where
  "isUpdateLastCheck (UpdateLastCheck i x) = True"
| "isUpdateLastCheck _ = False"

fun isChatCompletion :: "event \<Rightarrow> bool" where
  "isChatCompletion (ChatCompletion ks c) = True"
| "isChatCompletion _ = False"


text \<open>
  Occurrences of a pattern in a string, for the excerpts: \<open>firstOccurrence s pat pos i\<close>
  says that \<open>i\<close> is the least index at or after \<open>pos\<close> (clamped to the length) at which
  \<open>pat\<close> occurs in \<open>s\<close>, \<open>noOccurrence s pat pos\<close> that there is no such index.
  \<open>occurrenceChain s pat step pos n is\<close> says that \<open>is\<close> lists, earliest first, the
  occurrences found by starting at \<open>pos\<close> and resuming \<open>step\<close> after each one, until \<open>n\<close>
  are found or none is left.
\<close>

definition firstOccurrence :: "jsstr \<Rightarrow> jsstr \<Rightarrow> nat \<Rightarrow> nat \<Rightarrow> bool" where
  "firstOccurrence s pat pos i =
     (min pos (length s) \<le> i \<and> i \<le> length s \<and> startsWith (drop i s) pat
      \<and> (\<forall>j < i. min pos (length s) \<le> j \<longrightarrow> \<not> startsWith (drop j s) pat))"

definition noOccurrence :: "jsstr \<Rightarrow> jsstr \<Rightarrow> nat \<Rightarrow> bool" where
  "noOccurrence s pat pos =
     (\<forall>j \<le> length s. min pos (length s) \<le> j \<longrightarrow> \<not> startsWith (drop j s) pat)"

fun occurrenceChain :: "jsstr \<Rightarrow> jsstr \<Rightarrow> nat \<Rightarrow> nat \<Rightarrow> nat \<Rightarrow> nat list \<Rightarrow> bool" where
  "occurrenceChain s pat step pos n [] = (n = 0 \<or> noOccurrence s pat pos)"
| "occurrenceChain s pat step pos n (i # is) =
     (n > 0 \<and> firstOccurrence s pat pos i \<and> occurrenceChain s pat step (i + step) (n - 1) is)"

text \<open>
  The window of radius \<open>CONTEXT_RADIUS\<close> around an occurrence is clipped by the text
  boundary when it would reach beyond the beginning or the end of the text.
\<close>

definition clippedAtStart :: "nat \<Rightarrow> bool" where
  "clippedAtStart index = (int index - int CONTEXT_RADIUS < 0)"

definition clippedAtEnd :: "jsstr \<Rightarrow> jsstr \<Rightarrow> nat \<Rightarrow> bool" where
  "clippedAtEnd text keyword index = (index + length keyword + CONTEXT_RADIUS > length text)"


text \<open>
  The sessions of an owner that are alive: the session objects of the owner that are
  running, the intervals whose callback holds a session object of the owner, and the
  entries of the registry under the owner's id.
\<close>

definition liveRefs :: "engine \<Rightarrow> jsstr \<Rightarrow> nat list" where
  "liveRefs st userId =
     filter (\<lambda>r. isRunning (heap st ! r) \<and> sess_userId (heap st ! r) = userId)
       [0..<length (heap st)]"

definition ownerTimers :: "engine \<Rightarrow> jsstr \<Rightarrow> (nat \<times> nat) list" where
  "ownerTimers st userId =
     filter (\<lambda>(handle, r). r < length (heap st) \<and> sess_userId (heap st ! r) = userId)
       (timers st)"

definition registered :: "engine \<Rightarrow> jsstr \<Rightarrow> (jsstr \<times> nat) list" where
  "registered st userId = filter (\<lambda>(k, r). k = userId) (activeSessions st)"

text \<open>
  The shape of the module state that \<open>startMonitoring\<close> and \<open>stopMonitoring\<close>
  maintain: the registry and the live intervals have no duplicate keys; a registered
  session object is allocated, belongs to the owner it is registered under, is running
  and holds the handle of a live interval whose callback captured it; a live interval
  was handed out by the interval counter and belongs to a registered session object;
  and a running session object is registered.
\<close>

definition wellFormed :: "engine \<Rightarrow> bool" where
  "wellFormed st =
     (distinct (map fst (activeSessions st))
      \<and> distinct (map fst (timers st))
      \<and> (\<forall>(u, r) \<in> set (activeSessions st).
            r < length (heap st) \<and> sess_userId (heap st ! r) = u \<and> isRunning (heap st ! r)
            \<and> (\<exists>h. interval (heap st ! r) = Some h \<and> (h, r) \<in> set (timers st)))
      \<and> (\<forall>(h, r) \<in> set (timers st).
            h < nextTimer st \<and> r < length (heap st) \<and> interval (heap st ! r) = Some h
            \<and> (sess_userId (heap st ! r), r) \<in> set (activeSessions st))
      \<and> (\<forall>r < length (heap st).
            isRunning (heap st ! r) \<longrightarrow> (sess_userId (heap st ! r), r) \<in> set (activeSessions st)))"

definition isEmission :: "event \<Rightarrow> bool" where
  "isEmission ev = (isOnSignal ev \<or> isOnNoise ev)"


section \<open>Sample inputs\<close>

text \<open>On ASCII text \<open>toLowerCase\<close> is this function.\<close>

definition asciiLower :: "jsstr \<Rightarrow> jsstr" where
  "asciiLower s = map (\<lambda>c. if 0x41 \<le> c \<and> c \<le> 0x5A then c + 0x20 else c) s"

text \<open>What the \<open>URL\<close> constructor answers on a few inputs, and a throw on any other.\<close>

definition sampleParseURL :: "jsstr \<Rightarrow> url option" where
  "sampleParseURL s =
     (if s = js ''https://example.com''
      then Some \<lparr>protocol = js ''https:'', hostname = js ''example.com'',
                 href = js ''https://example.com/''\<rparr>
      else if s = js ''http://example.com:8080/api''
      then Some \<lparr>protocol = js ''http:'', hostname = js ''example.com'',
                 href = js ''http://example.com:8080/api''\<rparr>
      else if s = js ''http://10.0.0.1''
      then Some \<lparr>protocol = js ''http:'', hostname = js ''10.0.0.1'',
                 href = js ''http://10.0.0.1/''\<rparr>
      else if s = js ''http://192.168.1.1''
      then Some \<lparr>protocol = js ''http:'', hostname = js ''192.168.1.1'',
                 href = js ''http://192.168.1.1/''\<rparr>
      else if s = js ''http://[::1]''
      then Some \<lparr>protocol = js ''http:'', hostname = js ''[::1]'',
                 href = js ''http://[::1]/''\<rparr>
      else if s = js ''http://metadata.google.internal''
      then Some \<lparr>protocol = js ''http:'', hostname = js ''metadata.google.internal'',
                 href = js ''http://metadata.google.internal/''\<rparr>
      else if s = js ''ftp://files.example.com''
      then Some \<lparr>protocol = js ''ftp:'', hostname = js ''files.example.com'',
                 href = js ''ftp://files.example.com/''\<rparr>
      else None)"

definition sampleTarget :: target where
  "sampleTarget =
     \<lparr>target_id = js ''t1'', target_url = js ''https://example.com'',
      target_keywords = [js ''AI''], target_name = Some (js ''News''),
      last_hash = Some (js ''h0'')\<rparr>"

text \<open>
  A world in which the page reads \<open>New AI model\<close> with hash \<open>h1\<close>, the storage accepts
  every call, and the summarizer answers with a sentence that holds no JSON.
\<close>

definition sampleEnv :: env where
  "sampleEnv =
     \<lparr>toLowerCase = asciiLower,
      parseURL = sampleParseURL,
      parseJSON = (\<lambda>s. None),
      fetchPage = (\<lambda>h v. Inr (js ''New AI model'', js ''h1'')),
      getActiveByUser = (\<lambda>h u. Inr [sampleTarget]),
      updateLastCheck = (\<lambda>h i x. None),
      signalsCreate = (\<lambda>h row. Inr (js ''s1'')),
      chatCompletion = (\<lambda>h ks c. Inr (js ''no analysis'')),
      generateNoise = (\<lambda>h. js ''0x00''),
      isoNow = (\<lambda>h. js ''2025'')\<rparr>"

text \<open>The same world with a storage that refuses every update of the last check.\<close>

definition refuseUpdate :: "event list \<Rightarrow> jsstr \<Rightarrow> jsstr \<Rightarrow> jsstr option" where
  "refuseUpdate h i x = Some (js ''storage unavailable'')"

definition storageDownEnv :: env where
  "storageDownEnv = sampleEnv\<lparr>updateLastCheck := refuseUpdate\<rparr>"

text \<open>
  A second target whose page holds none of its keywords, and a world in which the
  request to the first target times out while the second page is fetched.
\<close>

definition quietTarget :: target where
  "quietTarget =
     \<lparr>target_id = js ''t2'', target_url = js ''http://example.com:8080/api'',
      target_keywords = [js ''robot''], target_name = None, last_hash = None\<rparr>"

definition timeoutFetch :: "event list \<Rightarrow> jsstr \<Rightarrow> jsstr + (jsstr \<times> jsstr)" where
  "timeoutFetch h v =
     (if v = js ''https://example.com/''
      then Inl (js ''The operation was aborted due to timeout'')
      else Inr (js ''New AI model'', js ''h1''))"

definition twoTargets :: "event list \<Rightarrow> jsstr \<Rightarrow> jsstr + target list" where
  "twoTargets h u = Inr [sampleTarget, quietTarget]"

definition timeoutEnv :: env where
  "timeoutEnv = sampleEnv\<lparr>fetchPage := timeoutFetch, getActiveByUser := twoTargets\<rparr>"

text \<open>Two owners start monitoring, then the first one starts again.\<close>

definition sampleOps :: "op list" where
  "sampleOps = [Start (js ''u1''), Start (js ''u2''), Start (js ''u1'')]"


section \<open>Properties\<close>


subsection \<open>Strings and sanitizers\<close>



lemma searchFrom_None_iff:
  "searchFrom pat s k = None \<longleftrightarrow> (\<forall>i \<le> length s. \<not> startsWith (drop i s) pat)"
proof (induction s arbitrary: k)
  case Nil
  show ?case by (auto simp: startsWith_def)
next
  case (Cons c cs)
  show ?case
  proof (cases "startsWith (c # cs) pat")
    case True
    then show ?thesis by auto
  next
    case False
    have "(\<forall>i \<le> length (c # cs). \<not> startsWith (drop i (c # cs)) pat)
          \<longleftrightarrow> (\<forall>i \<le> length cs. \<not> startsWith (drop i cs) pat)" (is "?L \<longleftrightarrow> ?R")
    proof
      assume l: ?L
      show ?R
      proof (intro allI impI)
        fix i assume "i \<le> length cs"
        then have "Suc i \<le> length (c # cs)" by simp
        with l have "\<not> startsWith (drop (Suc i) (c # cs)) pat" by blast
        then show "\<not> startsWith (drop i cs) pat" by simp
      qed
    next
      assume r: ?R
      show ?L
      proof (intro allI impI)
        fix i assume i: "i \<le> length (c # cs)"
        show "\<not> startsWith (drop i (c # cs)) pat"
        proof (cases i)
          case 0
          with False show ?thesis by simp
        next
          case (Suc j)
          with i r show ?thesis by simp
        qed
      qed
    qed
    with False Cons.IH show ?thesis by simp
  qed
qed

lemma take1_Cons: "take 1 (x # xs) = [a] \<longleftrightarrow> x = a"
  by simp



lemma take_Nil_neq: "take n [] \<noteq> x # xs"
  by simp


lemma dash_neq_tick: "(0x2D :: code_unit) \<noteq> 0x60"
  by simp




lemma includesStr_iff:
  "includesStr s pat \<longleftrightarrow> (\<exists>i \<le> length s. startsWith (drop i s) pat)"
  using searchFrom_None_iff[of pat s 0] by (auto simp: includesStr_def indexOf_def)










subsection \<open>What reaches the summarizer\<close>



lemma scrape_events:
  "fst (scrape E h u) = (case validateUrl E u of Inl e \<Rightarrow> [] | Inr v \<Rightarrow> [Fetch v])"
  by (simp add: scrape_def split: sum.splits)

lemma checkForSignal_events: "fst (checkForSignal E h u kws l) = fst (scrape E h u)"
  by (auto simp: checkForSignal_def Let_def split: prod.splits sum.splits)















subsection \<open>URL guard\<close>

lemma digit_cases: "k < 10 \<Longrightarrow> k = 0 \<or> k = 1 \<or> k = 2 \<or> k = 3 \<or> k = 4 \<or> k = 5 \<or> k = 6 \<or> k = 7 \<or> k = 8 \<or> k = (9::nat)"
  by arith

lemma digitChar_props:
  assumes "k < 10"
  shows "isDigit (digitChar k) \<and> digitChar k \<noteq> 0x2E \<and> unat (digitChar k - 0x30) = k"
  using digit_cases[OF assms] by (elim disjE) (simp_all add: digitChar_def isDigit_def)

lemma digits_group:
  assumes "list_all (\<lambda>k. k < 10) ks" "1 \<le> length ks" "length ks \<le> 3"
  shows "isOctetGroup (map digitChar ks) \<and> 0x2E \<notin> set (map digitChar ks)"
  using assms digitChar_props by (auto simp: isOctetGroup_def list_all_iff)

lemma digitsValue_1: "x < 10 \<Longrightarrow> digitsValue [digitChar x] = x"
  using digitChar_props[of x] by (simp add: digitsValue_def)

lemma digitsValue_2: "x < 10 \<Longrightarrow> y < 10 \<Longrightarrow> digitsValue [digitChar x, digitChar y] = 10 * x + y"
  using digitChar_props[of x] digitChar_props[of y] by (simp add: digitsValue_def)

lemma digitsValue_3:
  "x < 10 \<Longrightarrow> y < 10 \<Longrightarrow> z < 10
   \<Longrightarrow> digitsValue [digitChar x, digitChar y, digitChar z] = 10 * (10 * x + y) + z"
  using digitChar_props[of x] digitChar_props[of y] digitChar_props[of z]
  by (simp add: digitsValue_def)

lemma decimal_digits:
  assumes "n < 1000"
  shows "\<exists>ks. decimal n = map digitChar ks \<and> list_all (\<lambda>k. k < 10) ks \<and> 1 \<le> length ks
              \<and> length ks \<le> 3"
proof -
  have b: "n div 100 < 10" using assms by simp
  have c: "n < 100 \<Longrightarrow> n div 10 < 10" by simp
  consider "n < 10" | "\<not> n < 10" "n < 100" | "\<not> n < 10" "\<not> n < 100" by blast
  then show ?thesis
  proof cases
    case 1
    then have "decimal n = map digitChar [n]" by (simp add: decimal_def)
    with 1 show ?thesis by (intro exI[of _ "[n]"]) simp
  next
    case 2
    then have "decimal n = map digitChar [n div 10, n mod 10]" by (simp add: decimal_def)
    with c[OF 2(2)] show ?thesis by (intro exI[of _ "[n div 10, n mod 10]"]) simp
  next
    case 3
    then have "decimal n = map digitChar [n div 100, n div 10 mod 10, n mod 10]"
      by (simp add: decimal_def)
    with b show ?thesis by (intro exI[of _ "[n div 100, n div 10 mod 10, n mod 10]"]) simp
  qed
qed

lemma div100: "(n::nat) div 100 = n div 10 div 10"
  by (simp add: div_mult2_eq)

lemma digits2: "10 * ((n::nat) div 10) + n mod 10 = n"
  by (rule mult_div_mod_eq)

lemma digits3a: "10 * ((n::nat) div 100) + n div 10 mod 10 = n div 10"
  unfolding div100 by (rule mult_div_mod_eq)

lemma digits3: "10 * (10 * ((n::nat) div 100) + n div 10 mod 10) + n mod 10 = n"
  unfolding digits3a by (rule mult_div_mod_eq)

lemma decimal_value:
  assumes "n < 1000"
  shows "digitsValue (decimal n) = n"
proof -
  have b: "n div 100 < 10" using assms by simp
  have c: "n < 100 \<Longrightarrow> n div 10 < 10" by simp
  have m: "n mod 10 < 10" "n div 10 mod 10 < 10" by simp_all
  consider "n < 10" | "\<not> n < 10" "n < 100" | "\<not> n < 10" "\<not> n < 100" by blast
  then show ?thesis
  proof cases
    case 1
    then have d: "decimal n = [digitChar n]" by (simp add: decimal_def)
    show ?thesis unfolding d by (rule digitsValue_1[OF 1])
  next
    case 2
    then have d: "decimal n = [digitChar (n div 10), digitChar (n mod 10)]"
      by (simp add: decimal_def)
    show ?thesis unfolding d digitsValue_2[OF c[OF 2(2)] m(1)] by (rule digits2)
  next
    case 3
    then have d: "decimal n = [digitChar (n div 100), digitChar (n div 10 mod 10), digitChar (n mod 10)]"
      by (simp add: decimal_def)
    show ?thesis unfolding d digitsValue_3[OF b m(2) m(1)] by (rule digits3)
  qed
qed

lemma decimal_props:
  assumes "n < 1000"
  shows "isOctetGroup (decimal n) \<and> 0x2E \<notin> set (decimal n) \<and> digitsValue (decimal n) = n"
proof -
  from decimal_digits[OF assms] obtain ks where
    k: "decimal n = map digitChar ks" "list_all (\<lambda>k. k < 10) ks" "1 \<le> length ks" "length ks \<le> 3"
    by blast
  from digits_group[OF k(2,3,4)] decimal_value[OF assms] show ?thesis unfolding k(1) by simp
qed

lemma splitOn_last: "sep \<notin> set xs \<Longrightarrow> splitOn sep xs = [xs]"
  by (induction xs) auto

lemma splitOn_append: "sep \<notin> set xs \<Longrightarrow> splitOn sep (xs @ sep # ys) = xs # splitOn sep ys"
  by (induction xs) (auto split: list.splits)

lemma ipMatch_literal:
  assumes "a < 1000" "b < 1000" "c < 1000" "d < 1000"
  shows "ipMatch (ipv4Literal a b c d) = Some (a, b)"
proof -
  note pa = decimal_props[OF assms(1)] and pb = decimal_props[OF assms(2)]
    and pc = decimal_props[OF assms(3)] and pd = decimal_props[OF assms(4)]
  have dot: "js ''.'' = [0x2E]" by (simp add: js_def)
  have s: "splitOn 0x2E (ipv4Literal a b c d) = [decimal a, decimal b, decimal c, decimal d]"
    using pa pb pc pd by (simp add: ipv4Literal_def dot splitOn_append splitOn_last)
  show ?thesis unfolding ipMatch_def s using pa pb pc pd by simp
qed

lemma ipRangeError_ssrf: "ipRangeError a b = Some e \<Longrightarrow> e \<in> set ssrfErrors"
  by (simp add: ipRangeError_def ssrfErrors_def split: if_splits)

lemma ipRangeError_blocks:
  "a = 10 \<or> (a = 172 \<and> 16 \<le> b \<and> b \<le> 31) \<or> (a = 192 \<and> b = 168) \<or> (a = 169 \<and> b = 254) \<or> a = 127
   \<Longrightarrow> \<exists>e. ipRangeError a b = Some e"
  by (auto simp: ipRangeError_def)

lemma checkHost_cases:
  "checkHost host = Some errLocalhost
   \<or> (\<exists>a b e. ipMatch host = Some (a, b) \<and> ipRangeError a b = Some e \<and> checkHost host = Some e)
   \<or> (host \<notin> set localhostPatterns
       \<and> (case ipMatch host of None \<Rightarrow> None | Some (a, b) \<Rightarrow> ipRangeError a b) = None
       \<and> checkHost host = (if host \<in> set blockedHosts then Some errMetadata else None))"
  by (cases "host \<in> set localhostPatterns"; cases "ipMatch host")
     (auto simp: checkHost_def split: option.splits)

lemma checkHost_literal:
  assumes "a \<le> 255" "b \<le> 255" "c \<le> 255" "d \<le> 255" "inBlockedRange a b"
  shows "\<exists>e. checkHost (ipv4Literal a b c d) = Some e \<and> e \<in> set ssrfErrors"
proof -
  have m: "ipMatch (ipv4Literal a b c d) = Some (a, b)"
    using assms(1-4) by (intro ipMatch_literal) simp_all
  from ipRangeError_blocks[of a b] assms(5) obtain e where e: "ipRangeError a b = Some e"
    unfolding inBlockedRange_def by blast
  have l: "errLocalhost \<in> set ssrfErrors" by (simp add: ssrfErrors_def)
  from m e have "checkHost (ipv4Literal a b c d) = Some errLocalhost
                 \<or> checkHost (ipv4Literal a b c d) = Some e"
    by (simp add: checkHost_def)
  with l ipRangeError_ssrf[OF e] show ?thesis by auto
qed

lemma checkHost_alias:
  "host \<in> set localhostAliases \<Longrightarrow> checkHost host = Some errLocalhost"
  by (simp add: checkHost_def localhostAliases_def localhostPatterns_def)

lemma checkHost_metadata:
  assumes "host \<in> set metadataHosts"
  shows "checkHost host = Some errMetadata"
proof -
  have 1: "checkHost (js ''metadata.google.internal'') = Some errMetadata" by code_simp
  have 2: "checkHost (js ''metadata.gke.internal'') = Some errMetadata" by code_simp
  have 3: "checkHost (js ''kubernetes.default.svc'') = Some errMetadata" by code_simp
  from assms have "host = js ''metadata.google.internal'' \<or> host = js ''metadata.gke.internal''
                   \<or> host = js ''kubernetes.default.svc''"
    by (simp add: metadataHosts_def)
  with 1 2 3 show ?thesis by (elim disjE) simp_all
qed

lemma checkHost_example: "checkHost (js ''example.com'') = None"
  by (simp add: checkHost_def localhostPatterns_def blockedHosts_def ipMatch_def js_def
      isOctetGroup_def isDigit_def digitsValue_def)

lemma validateUrl_checks:
  "parseURL E s = Some u \<Longrightarrow> protocol u = js ''http:'' \<or> protocol u = js ''https:''
   \<Longrightarrow> validateUrl E s
       = (case checkHost (toLowerCase E (hostname u)) of Some e \<Rightarrow> Inl e | None \<Rightarrow> Inr (href u))"
  by (auto simp: validateUrl_def)

lemma validateUrl_blocked:
  "parseURL E s = Some u \<Longrightarrow> checkHost (toLowerCase E (hostname u)) = Some e
   \<Longrightarrow> validateUrl E s = Inl e \<or> validateUrl E s = Inl errProtocol"
  by (auto simp: validateUrl_def)

text \<open>
  Claim C2. \<open>validateUrl\<close> throws \<open>Invalid URL format\<close> when the \<open>URL\<close> constructor
  rejects the string, and the protocol error when the parsed scheme is neither
  \<open>http:\<close> nor \<open>https:\<close>. For an \<open>http\<close> or \<open>https\<close> URL it throws the localhost
  error when the lower-cased host name is \<open>localhost\<close>, \<open>127.0.0.1\<close>, \<open>0.0.0.0\<close>,
  \<open>::1\<close> or \<open>[::1]\<close>; an error that blocks internal destinations when the host is the
  dotted-decimal literal of four octets (each at most 255) in 10.0.0.0/8, 172.16.0.0/12,
  192.168.0.0/16, 169.254.0.0/16 or 127.0.0.0/8; and the metadata error when the host is
  \<open>metadata.google.internal\<close>, \<open>metadata.gke.internal\<close> or \<open>kubernetes.default.svc\<close>.
  Whatever the scheme, it never returns for such a host. For an \<open>http\<close> or \<open>https\<close>
  URL on the host \<open>example.com\<close> (as \<open>https://example.com\<close> and
  \<open>http://example.com:8080/api\<close> are) it returns the \<open>href\<close> of the parsed URL.
\<close>

theorem validateUrl_contract:
  "(parseURL E s = None \<longrightarrow> validateUrl E s = Inl errInvalidFormat)
   \<and> (\<forall>u. parseURL E s = Some u \<and> protocol u \<noteq> js ''http:'' \<and> protocol u \<noteq> js ''https:''
          \<longrightarrow> validateUrl E s = Inl errProtocol)
   \<and> (\<forall>u. parseURL E s = Some u \<and> (protocol u = js ''http:'' \<or> protocol u = js ''https:'')
          \<and> toLowerCase E (hostname u) \<in> set localhostAliases
          \<longrightarrow> validateUrl E s = Inl errLocalhost)
   \<and> (\<forall>u a b c d. parseURL E s = Some u \<and> (protocol u = js ''http:'' \<or> protocol u = js ''https:'')
          \<and> toLowerCase E (hostname u) = ipv4Literal a b c d
          \<and> a \<le> 255 \<and> b \<le> 255 \<and> c \<le> 255 \<and> d \<le> 255 \<and> inBlockedRange a b
          \<longrightarrow> (\<exists>e. validateUrl E s = Inl e \<and> e \<in> set ssrfErrors))
   \<and> (\<forall>u. parseURL E s = Some u \<and> (protocol u = js ''http:'' \<or> protocol u = js ''https:'')
          \<and> toLowerCase E (hostname u) \<in> set metadataHosts
          \<longrightarrow> validateUrl E s = Inl errMetadata)
   \<and> (\<forall>u a b c d. parseURL E s = Some u
          \<and> (toLowerCase E (hostname u) \<in> set localhostAliases
              \<or> toLowerCase E (hostname u) \<in> set metadataHosts
              \<or> (toLowerCase E (hostname u) = ipv4Literal a b c d
                  \<and> a \<le> 255 \<and> b \<le> 255 \<and> c \<le> 255 \<and> d \<le> 255 \<and> inBlockedRange a b))
          \<longrightarrow> (\<exists>e. validateUrl E s = Inl e))
   \<and> (\<forall>u. parseURL E s = Some u \<and> (protocol u = js ''http:'' \<or> protocol u = js ''https:'')
          \<and> toLowerCase E (hostname u) = js ''example.com''
          \<longrightarrow> validateUrl E s = Inr (href u))"
proof (intro conjI allI impI)
  show "parseURL E s = None \<Longrightarrow> validateUrl E s = Inl errInvalidFormat"
    by (simp add: validateUrl_def)
next
  fix u
  assume "parseURL E s = Some u \<and> protocol u \<noteq> js ''http:'' \<and> protocol u \<noteq> js ''https:''"
  then show "validateUrl E s = Inl errProtocol"
    by (simp add: validateUrl_def)
next
  fix u
  assume a: "parseURL E s = Some u \<and> (protocol u = js ''http:'' \<or> protocol u = js ''https:'')
          \<and> toLowerCase E (hostname u) \<in> set localhostAliases"
  then have "checkHost (toLowerCase E (hostname u)) = Some errLocalhost"
    using checkHost_alias by blast
  with a validateUrl_checks[of E s u] show "validateUrl E s = Inl errLocalhost" by simp
next
  fix u a b c d
  assume a: "parseURL E s = Some u \<and> (protocol u = js ''http:'' \<or> protocol u = js ''https:'')
          \<and> toLowerCase E (hostname u) = ipv4Literal a b c d
          \<and> a \<le> 255 \<and> b \<le> 255 \<and> c \<le> 255 \<and> d \<le> 255 \<and> inBlockedRange a b"
  then obtain e where e: "checkHost (ipv4Literal a b c d) = Some e" "e \<in> set ssrfErrors"
    using checkHost_literal[of a b c d] by blast
  with a validateUrl_checks[of E s u] show "\<exists>e. validateUrl E s = Inl e \<and> e \<in> set ssrfErrors"
    by simp
next
  fix u
  assume a: "parseURL E s = Some u \<and> (protocol u = js ''http:'' \<or> protocol u = js ''https:'')
          \<and> toLowerCase E (hostname u) \<in> set metadataHosts"
  then have "checkHost (toLowerCase E (hostname u)) = Some errMetadata"
    using checkHost_metadata by blast
  with a validateUrl_checks[of E s u] show "validateUrl E s = Inl errMetadata" by simp
next
  fix u a b c d
  assume a: "parseURL E s = Some u
          \<and> (toLowerCase E (hostname u) \<in> set localhostAliases
              \<or> toLowerCase E (hostname u) \<in> set metadataHosts
              \<or> (toLowerCase E (hostname u) = ipv4Literal a b c d
                  \<and> a \<le> 255 \<and> b \<le> 255 \<and> c \<le> 255 \<and> d \<le> 255 \<and> inBlockedRange a b))"
  then have "\<exists>e. checkHost (toLowerCase E (hostname u)) = Some e"
    using checkHost_alias[of "toLowerCase E (hostname u)"]
      checkHost_metadata[of "toLowerCase E (hostname u)"] checkHost_literal[of a b c d]
    by auto
  with a validateUrl_blocked[of E s u] show "\<exists>e. validateUrl E s = Inl e" by blast
next
  fix u
  assume "parseURL E s = Some u \<and> (protocol u = js ''http:'' \<or> protocol u = js ''https:'')
          \<and> toLowerCase E (hostname u) = js ''example.com''"
  then show "validateUrl E s = Inr (href u)"
    using validateUrl_checks[of E s u] by (simp add: checkHost_example)
qed

theorem validateUrl_contract_witness:
  "validateUrl sampleEnv (js ''not-a-url'') = Inl errInvalidFormat
   \<and> validateUrl sampleEnv (js ''ftp://files.example.com'') = Inl errProtocol
   \<and> validateUrl sampleEnv (js ''http://[::1]'') = Inl errLocalhost
   \<and> ipv4Literal 192 168 1 1 = js ''192.168.1.1'' \<and> inBlockedRange 192 168
   \<and> (\<exists>e. validateUrl sampleEnv (js ''http://192.168.1.1'') = Inl e \<and> e \<in> set ssrfErrors)
   \<and> validateUrl sampleEnv (js ''http://192.168.1.1'') = Inl errPrivate192
   \<and> validateUrl sampleEnv (js ''http://metadata.google.internal'') = Inl errMetadata
   \<and> (\<exists>e. validateUrl sampleEnv (js ''http://10.0.0.1'') = Inl e)
   \<and> validateUrl sampleEnv (js ''https://example.com'') = Inr (js ''https://example.com/'')
   \<and> validateUrl sampleEnv (js ''http://example.com:8080/api'')
       = Inr (js ''http://example.com:8080/api'')"
proof -
  let ?ftp = "\<lparr>protocol = js ''ftp:'', hostname = js ''files.example.com'',
               href = js ''ftp://files.example.com/''\<rparr>"
  let ?v6 = "\<lparr>protocol = js ''http:'', hostname = js ''[::1]'', href = js ''http://[::1]/''\<rparr>"
  let ?p192 = "\<lparr>protocol = js ''http:'', hostname = js ''192.168.1.1'',
                href = js ''http://192.168.1.1/''\<rparr>"
  let ?md = "\<lparr>protocol = js ''http:'', hostname = js ''metadata.google.internal'',
              href = js ''http://metadata.google.internal/''\<rparr>"
  let ?p10 = "\<lparr>protocol = js ''http:'', hostname = js ''10.0.0.1'',
               href = js ''http://10.0.0.1/''\<rparr>"
  let ?ex1 = "\<lparr>protocol = js ''https:'', hostname = js ''example.com'',
               href = js ''https://example.com/''\<rparr>"
  let ?ex2 = "\<lparr>protocol = js ''http:'', hostname = js ''example.com'',
               href = js ''http://example.com:8080/api''\<rparr>"
  have p1: "parseURL sampleEnv (js ''not-a-url'') = None"
    by code_simp
  have p2: "parseURL sampleEnv (js ''ftp://files.example.com'') = Some ?ftp
            \<and> protocol ?ftp \<noteq> js ''http:'' \<and> protocol ?ftp \<noteq> js ''https:''"
    by code_simp
  have p3: "parseURL sampleEnv (js ''http://[::1]'') = Some ?v6
            \<and> (protocol ?v6 = js ''http:'' \<or> protocol ?v6 = js ''https:'')
            \<and> toLowerCase sampleEnv (hostname ?v6) \<in> set localhostAliases"
    by code_simp
  have l4: "ipv4Literal 192 168 1 1 = js ''192.168.1.1''"
    by code_simp
  have r4: "inBlockedRange 192 168"
    by (simp add: inBlockedRange_def)
  have p4: "parseURL sampleEnv (js ''http://192.168.1.1'') = Some ?p192
            \<and> (protocol ?p192 = js ''http:'' \<or> protocol ?p192 = js ''https:'')
            \<and> toLowerCase sampleEnv (hostname ?p192) = js ''192.168.1.1''"
    by code_simp
  have e4: "validateUrl sampleEnv (js ''http://192.168.1.1'') = Inl errPrivate192"
    by code_simp
  have p5: "parseURL sampleEnv (js ''http://metadata.google.internal'') = Some ?md
            \<and> (protocol ?md = js ''http:'' \<or> protocol ?md = js ''https:'')
            \<and> toLowerCase sampleEnv (hostname ?md) \<in> set metadataHosts"
    by code_simp
  have l6: "ipv4Literal 10 0 0 1 = js ''10.0.0.1''"
    by code_simp
  have p6: "parseURL sampleEnv (js ''http://10.0.0.1'') = Some ?p10
            \<and> toLowerCase sampleEnv (hostname ?p10) = js ''10.0.0.1''"
    by code_simp
  have p7: "parseURL sampleEnv (js ''https://example.com'') = Some ?ex1
            \<and> (protocol ?ex1 = js ''http:'' \<or> protocol ?ex1 = js ''https:'')
            \<and> toLowerCase sampleEnv (hostname ?ex1) = js ''example.com''"
    by code_simp
  have p8: "parseURL sampleEnv (js ''http://example.com:8080/api'') = Some ?ex2
            \<and> (protocol ?ex2 = js ''http:'' \<or> protocol ?ex2 = js ''https:'')
            \<and> toLowerCase sampleEnv (hostname ?ex2) = js ''example.com''"
    by code_simp
  note T1 = validateUrl_contract[of sampleEnv "js ''not-a-url''", THEN conjunct1, rule_format]
  note T2 = validateUrl_contract[of sampleEnv "js ''ftp://files.example.com''",
      THEN conjunct2, THEN conjunct1, rule_format, of ?ftp]
  note T3 = validateUrl_contract[of sampleEnv "js ''http://[::1]''",
      THEN conjunct2, THEN conjunct2, THEN conjunct1, rule_format, of ?v6]
  note T4 = validateUrl_contract[of sampleEnv "js ''http://192.168.1.1''",
      THEN conjunct2, THEN conjunct2, THEN conjunct2, THEN conjunct1, rule_format,
      of ?p192 192 168 1 1]
  note T5 = validateUrl_contract[of sampleEnv "js ''http://metadata.google.internal''",
      THEN conjunct2, THEN conjunct2, THEN conjunct2, THEN conjunct2, THEN conjunct1,
      rule_format, of ?md]
  note T6 = validateUrl_contract[of sampleEnv "js ''http://10.0.0.1''",
      THEN conjunct2, THEN conjunct2, THEN conjunct2, THEN conjunct2, THEN conjunct2,
      THEN conjunct1, rule_format, of ?p10 10 0 0 1]
  note T7 = validateUrl_contract[of sampleEnv "js ''https://example.com''",
      THEN conjunct2, THEN conjunct2, THEN conjunct2, THEN conjunct2, THEN conjunct2,
      THEN conjunct2, rule_format, of ?ex1]
  note T8 = validateUrl_contract[of sampleEnv "js ''http://example.com:8080/api''",
      THEN conjunct2, THEN conjunct2, THEN conjunct2, THEN conjunct2, THEN conjunct2,
      THEN conjunct2, rule_format, of ?ex2]
  have c1: "validateUrl sampleEnv (js ''not-a-url'') = Inl errInvalidFormat"
    by (rule T1) (rule p1)
  have c2: "validateUrl sampleEnv (js ''ftp://files.example.com'') = Inl errProtocol"
    by (rule T2) (rule p2)
  have c3: "validateUrl sampleEnv (js ''http://[::1]'') = Inl errLocalhost"
    by (rule T3) (rule p3)
  have c4: "\<exists>e. validateUrl sampleEnv (js ''http://192.168.1.1'') = Inl e \<and> e \<in> set ssrfErrors"
    by (rule T4) (use p4 l4 r4 in simp)
  have c5: "validateUrl sampleEnv (js ''http://metadata.google.internal'') = Inl errMetadata"
    by (rule T5) (rule p5)
  have c6: "\<exists>e. validateUrl sampleEnv (js ''http://10.0.0.1'') = Inl e"
    by (rule T6) (use p6 l6 in \<open>simp add: inBlockedRange_def\<close>)
  have c7: "validateUrl sampleEnv (js ''https://example.com'') = Inr (js ''https://example.com/'')"
    using T7[OF p7] by simp
  have c8: "validateUrl sampleEnv (js ''http://example.com:8080/api'')
            = Inr (js ''http://example.com:8080/api'')"
    using T8[OF p8] by simp
  show ?thesis
    apply (intro conjI)
              apply (rule c1)
             apply (rule c2)
            apply (rule c3)
           apply (rule l4)
          apply (rule r4)
         apply (rule c4)
        apply (rule e4)
       apply (rule c5)
      apply (rule c6)
     apply (rule c7)
    apply (rule c8)
    done
qed


subsection \<open>One target in a tick\<close>

lemma checkForSignal_invalid:
  "validateUrl E u = Inl e \<Longrightarrow> checkForSignal E h u kws l = ([], Inl e)"
  by (simp add: checkForSignal_def scrape_def)

lemma checkForSignal_fetch_error:
  "validateUrl E u = Inr v \<Longrightarrow> fetchPage E h v = Inl e
   \<Longrightarrow> checkForSignal E h u kws l = ([Fetch v], Inl e)"
  by (simp add: checkForSignal_def scrape_def)

lemma checkForSignal_unchanged:
  "validateUrl E u = Inr v \<Longrightarrow> fetchPage E h v = Inr (text, hsh) \<Longrightarrow> l = Some hsh
   \<Longrightarrow> checkForSignal E h u kws l
       = ([Fetch v], Inr \<lparr>changed = False, matches = [], content = [], hash = hsh\<rparr>)"
  by (simp add: checkForSignal_def scrape_def)

lemma checkForSignal_changed:
  "validateUrl E u = Inr v \<Longrightarrow> fetchPage E h v = Inr (text, hsh) \<Longrightarrow> l \<noteq> Some hsh
   \<Longrightarrow> checkForSignal E h u kws l
       = ([Fetch v],
          Inr \<lparr>changed = True,
               matches = filter (\<lambda>k. includesStr (toLowerCase E text) (toLowerCase E k)) kws,
               content =
                 (if filter (\<lambda>k. includesStr (toLowerCase E text) (toLowerCase E k)) kws = []
                  then []
                  else extractRelevantContent E text
                         (filter (\<lambda>k. includesStr (toLowerCase E text) (toLowerCase E k)) kws)),
               hash = hsh\<rparr>)"
  by (auto simp: checkForSignal_def scrape_def Let_def)

lemma processTarget_check_error:
  "checkForSignal E h (target_url t) (target_keywords t) (last_hash t) = (ev1, Inl e)
   \<Longrightarrow> processTarget E uid h t = ev1 @ [OnNoise (errorLine t e), Sleep 1000]"
  by (simp add: processTarget_def tryTarget_def)

lemma processTarget_update_error:
  "checkForSignal E h (target_url t) (target_keywords t) (last_hash t) = (ev1, Inr r)
   \<Longrightarrow> updateLastCheck E (h @ ev1) (target_id t) (hash r) = Some e
   \<Longrightarrow> processTarget E uid h t
       = ev1 @ [UpdateLastCheck (target_id t) (hash r), OnNoise (errorLine t e), Sleep 1000]"
  by (simp add: processTarget_def tryTarget_def)

lemma processTarget_no_match:
  "checkForSignal E h (target_url t) (target_keywords t) (last_hash t) = (ev1, Inr r)
   \<Longrightarrow> updateLastCheck E (h @ ev1) (target_id t) (hash r) = None
   \<Longrightarrow> matches r = []
   \<Longrightarrow> processTarget E uid h t
       = ev1 @ [UpdateLastCheck (target_id t) (hash r),
                OnNoise (if changed r then updatedLine t else noChangeLine t), Sleep 1000]"
  by (simp add: processTarget_def tryTarget_def)

lemma processTarget_match:
  assumes "checkForSignal E h (target_url t) (target_keywords t) (last_hash t) = (ev1, Inr r)"
    and "updateLastCheck E (h @ ev1) (target_id t) (hash r) = None"
    and "matches r \<noteq> []"
    and "analyzeIfContent E (h @ ev1 @ [UpdateLastCheck (target_id t) (hash r)]) r = (ev3, ai)"
  shows "processTarget E uid h t
         = ev1 @ [UpdateLastCheck (target_id t) (hash r)] @ ev3
           @ [SignalsCreate (signalRow uid t r ai)]
           @ (case signalsCreate E (h @ ev1 @ [UpdateLastCheck (target_id t) (hash r)] @ ev3)
                     (signalRow uid t r ai) of
                Inl e \<Rightarrow> [OnNoise (errorLine t e)]
              | Inr sid \<Rightarrow>
                  [OnSignal (signalData sid t r ai
                     (isoNow E (h @ ev1 @ [UpdateLastCheck (target_id t) (hash r)] @ ev3
                                @ [SignalsCreate (signalRow uid t r ai)])))])
           @ [Sleep 1000]"
  using assms
  by (simp add: processTarget_def tryTarget_def saveAndNotify_def Let_def split: sum.splits)

lemma analyzeIfContent_events:
  "analyzeIfContent E h r = (ev3, ai) \<Longrightarrow> list_all isChatCompletion ev3"
  by (auto simp: analyzeIfContent_def analyzeSignal_def Let_def split: if_splits sum.splits)

text \<open>
  Claim C10. When the page is fetched and its hash equals the target's stored hash,
  \<open>checkForSignal\<close> returns \<open>changed = false\<close> with no matches and an empty content,
  whatever the text and the keywords are. The tick then only records the check and
  emits one noise line for the target (the "no change" line, or the error line when the
  storage refuses the update): it sends nothing to the summarizer, creates no signal and
  emits no signal event.
\<close>

theorem unchanged_hash_no_signal:
  assumes "validateUrl E (target_url t) = Inr v"
    and "fetchPage E h v = Inr (text, hsh)"
    and "last_hash t = Some hsh"
  shows "checkForSignal E h (target_url t) (target_keywords t) (last_hash t)
           = ([Fetch v], Inr \<lparr>changed = False, matches = [], content = [], hash = hsh\<rparr>)
         \<and> processTarget E uid h t
           = [Fetch v, UpdateLastCheck (target_id t) hsh,
              OnNoise (case updateLastCheck E (h @ [Fetch v]) (target_id t) hsh of
                         None \<Rightarrow> noChangeLine t
                       | Some e \<Rightarrow> errorLine t e),
              Sleep 1000]
         \<and> filter isChatCompletion (processTarget E uid h t) = []
         \<and> filter isSignalsCreate (processTarget E uid h t) = []
         \<and> filter isOnSignal (processTarget E uid h t) = []"
proof -
  have c: "checkForSignal E h (target_url t) (target_keywords t) (last_hash t)
           = ([Fetch v], Inr \<lparr>changed = False, matches = [], content = [], hash = hsh\<rparr>)"
    using assms by (rule checkForSignal_unchanged)
  have p: "processTarget E uid h t
           = [Fetch v, UpdateLastCheck (target_id t) hsh,
              OnNoise (case updateLastCheck E (h @ [Fetch v]) (target_id t) hsh of
                         None \<Rightarrow> noChangeLine t
                       | Some e \<Rightarrow> errorLine t e),
              Sleep 1000]"
  proof (cases "updateLastCheck E (h @ [Fetch v]) (target_id t) hsh")
    case None
    then show ?thesis using processTarget_no_match[OF c, where uid = uid] by simp
  next
    case (Some e)
    then show ?thesis using processTarget_update_error[OF c, where uid = uid and e = e] by simp
  qed
  show ?thesis unfolding p using c by simp
qed

theorem unchanged_hash_no_signal_witness:
  "includesStr (asciiLower (js ''New AI model'')) (asciiLower (js ''AI''))
   \<and> processTarget sampleEnv (js ''u1'') [] (sampleTarget\<lparr>last_hash := Some (js ''h1'')\<rparr>)
       = [Fetch (js ''https://example.com/''), UpdateLastCheck (js ''t1'') (js ''h1''),
          OnNoise (js ''[SCAN] News - No change detected''), Sleep 1000]
   \<and> filter isOnSignal
         (processTarget sampleEnv (js ''u1'') [] (sampleTarget\<lparr>last_hash := Some (js ''h1'')\<rparr>))
       = []"
proof -
  let ?t = "sampleTarget\<lparr>last_hash := Some (js ''h1'')\<rparr>"
  have a: "validateUrl sampleEnv (target_url ?t) = Inr (js ''https://example.com/'')"
    by code_simp
  have b: "fetchPage sampleEnv [] (js ''https://example.com/'') = Inr (js ''New AI model'', js ''h1'')"
    by code_simp
  have c: "last_hash ?t = Some (js ''h1'')"
    by simp
  have d: "includesStr (asciiLower (js ''New AI model'')) (asciiLower (js ''AI''))"
    by code_simp
  have e: "updateLastCheck sampleEnv [Fetch (js ''https://example.com/'')] (js ''t1'') (js ''h1'')
           = None"
    by code_simp
  have f: "noChangeLine ?t = js ''[SCAN] News - No change detected''"
    by code_simp
  have g: "target_id ?t = js ''t1''"
    by code_simp
  from unchanged_hash_no_signal[OF a b c, of "js ''u1''"] d e f g
  show ?thesis by simp
qed


subsection \<open>Stopping and reading the status\<close>

lemma map_of_delete_same: "map_of (AList.delete k al) k = None"
  by (simp add: delete_conv)

lemma stopMonitoring_unregistered: "map_of (activeSessions (stopMonitoring st userId)) userId = None"
  by (auto simp: stopMonitoring_def Let_def map_of_delete_same split: option.splits)

lemma stopMonitoring_absent:
  "map_of (activeSessions st) userId = None \<Longrightarrow> stopMonitoring st userId = st"
  by (simp add: stopMonitoring_def)

text \<open>
  Claim C9. After \<open>stopMonitoring\<close> for an owner the registry holds no session for that
  owner, so a second \<open>stopMonitoring\<close> changes nothing in the state (not even the
  clock: it does not wait), and \<open>getStatus\<close> reports \<open>isActive = false\<close> and a
  \<open>null\<close> session id.
\<close>

theorem stop_idempotent:
  "stopMonitoring (stopMonitoring st userId) userId = stopMonitoring st userId
   \<and> map_of (activeSessions (stopMonitoring st userId)) userId = None
   \<and> getStatus (stopMonitoring st userId) userId = \<lparr>isActive = False, sessionId = None\<rparr>"
  using stopMonitoring_unregistered[of st userId]
    stopMonitoring_absent[of "stopMonitoring st userId" userId]
  by (simp add: getStatus_def)

theorem stop_idempotent_witness:
  "getStatus (fst (startMonitoring initEngine (js ''u1''))) (js ''u1'')
     = \<lparr>isActive = True, sessionId = Some (SessionAt 0)\<rparr>
   \<and> timers (fst (startMonitoring initEngine (js ''u1''))) = [(0, 0)]
   \<and> timers (stopMonitoring (fst (startMonitoring initEngine (js ''u1''))) (js ''u1'')) = []
   \<and> stopMonitoring (stopMonitoring (fst (startMonitoring initEngine (js ''u1''))) (js ''u1''))
        (js ''u1'')
      = stopMonitoring (fst (startMonitoring initEngine (js ''u1''))) (js ''u1'')
   \<and> getStatus (stopMonitoring (fst (startMonitoring initEngine (js ''u1''))) (js ''u1''))
        (js ''u1'')
      = \<lparr>isActive = False, sessionId = None\<rparr>"
proof -
  have a: "getStatus (fst (startMonitoring initEngine (js ''u1''))) (js ''u1'')
           = \<lparr>isActive = True, sessionId = Some (SessionAt 0)\<rparr>"
    by code_simp
  have b: "timers (fst (startMonitoring initEngine (js ''u1''))) = [(0, 0)]"
    by code_simp
  have c: "timers (stopMonitoring (fst (startMonitoring initEngine (js ''u1''))) (js ''u1'')) = []"
    by code_simp
  from a b c stop_idempotent[of "fst (startMonitoring initEngine (js ''u1''))" "js ''u1''"]
  show ?thesis by simp
qed


subsection \<open>The force scan\<close>

lemma checkForSignal_only_fetch:
  "checkForSignal E h u kws l = (evs, r) \<Longrightarrow> evs = [] \<or> (\<exists>v. evs = [Fetch v])"
  using checkForSignal_events[of E h u kws l] by (auto simp: scrape_events split: sum.splits)

























subsection \<open>The session registry\<close>

lemma startMonitoring_eq:
  "startMonitoring st userId = createSession (stopMonitoring st userId) userId"
  by (simp add: startMonitoring_def Let_def stopMonitoring_unregistered)

lemma wellFormed_init: "wellFormed initEngine"
  by (simp add: wellFormed_def initEngine_def)

lemma set_delete: "set (AList.delete k al) = {p \<in> set al. fst p \<noteq> k}"
  by (auto simp: AList.delete_eq)

lemma stopMonitoring_present:
  assumes m: "map_of (activeSessions st) userId = Some r"
    and i: "interval (heap st ! r) = Some h" and l: "r < length (heap st)"
  shows "stopMonitoring st userId
         = st\<lparr>heap := (heap st)[r := (heap st ! r)\<lparr>isRunning := False, interval := None\<rparr>],
              timers := AList.delete h (timers st),
              activeSessions := AList.delete userId (activeSessions st),
              clock := clock st + 100\<rparr>"
  using assms by (simp add: stopMonitoring_def Let_def)

lemma wellFormed_stop:
  assumes w: "wellFormed st"
  shows "wellFormed (stopMonitoring st userId)"
proof (cases "map_of (activeSessions st) userId")
  case None
  then show ?thesis using w by (simp add: stopMonitoring_absent)
next
  case (Some r)
  then have ur: "(userId, r) \<in> set (activeSessions st)" by (rule map_of_SomeD)
  from w have A: "distinct (map fst (activeSessions st))"
    and B: "distinct (map fst (timers st))"
    and C: "\<And>u' r'. (u', r') \<in> set (activeSessions st) \<Longrightarrow>
              r' < length (heap st) \<and> sess_userId (heap st ! r') = u' \<and> isRunning (heap st ! r')
              \<and> (\<exists>h. interval (heap st ! r') = Some h \<and> (h, r') \<in> set (timers st))"
    and D: "\<And>h' r'. (h', r') \<in> set (timers st) \<Longrightarrow>
              h' < nextTimer st \<and> r' < length (heap st) \<and> interval (heap st ! r') = Some h'
              \<and> (sess_userId (heap st ! r'), r') \<in> set (activeSessions st)"
    and E: "\<And>r'. r' < length (heap st) \<Longrightarrow> isRunning (heap st ! r') \<Longrightarrow>
              (sess_userId (heap st ! r'), r') \<in> set (activeSessions st)"
    unfolding wellFormed_def by blast+
  from C[OF ur] obtain h where l: "r < length (heap st)" and o: "sess_userId (heap st ! r) = userId"
    and i: "interval (heap st ! r) = Some h" and hr: "(h, r) \<in> set (timers st)" by blast
  have uniq: "\<And>r'. (userId, r') \<in> set (activeSessions st) \<Longrightarrow> r' = r"
    using A ur by (meson eq_key_imp_eq_value)
  have uniqh: "\<And>r'. (h, r') \<in> set (timers st) \<Longrightarrow> r' = r"
    using B hr by (meson eq_key_imp_eq_value)
  let ?st' = "stopMonitoring st userId"
  have eq: "?st' = st\<lparr>heap := (heap st)[r := (heap st ! r)\<lparr>isRunning := False, interval := None\<rparr>],
              timers := AList.delete h (timers st),
              activeSessions := AList.delete userId (activeSessions st),
              clock := clock st + 100\<rparr>"
    by (rule stopMonitoring_present[OF Some i l])
  have hp: "heap ?st' = (heap st)[r := (heap st ! r)\<lparr>isRunning := False, interval := None\<rparr>]"
    and tm: "timers ?st' = AList.delete h (timers st)"
    and ac: "activeSessions ?st' = AList.delete userId (activeSessions st)"
    and nt: "nextTimer ?st' = nextTimer st"
    unfolding eq by simp_all
  have other: "\<And>r'. r' \<noteq> r \<Longrightarrow> heap ?st' ! r' = heap st ! r'" unfolding hp by simp
  have len: "length (heap ?st') = length (heap st)" unfolding hp by simp
  have notrun: "\<not> isRunning (heap ?st' ! r)" unfolding hp using l by simp
  show ?thesis
    unfolding wellFormed_def
  proof (intro conjI ballI allI impI)
    show "distinct (map fst (activeSessions ?st'))" unfolding ac using A by (rule distinct_delete)
    show "distinct (map fst (timers ?st'))" unfolding tm using B by (rule distinct_delete)
  next
    fix p assume p: "p \<in> set (activeSessions ?st')"
    obtain u' r' where pe: "p = (u', r')" by (cases p)
    from p have in_old: "(u', r') \<in> set (activeSessions st)" and ne: "u' \<noteq> userId"
      unfolding ac pe set_delete by auto
    from C[OF in_old] obtain h' where c: "r' < length (heap st)" "sess_userId (heap st ! r') = u'"
      "isRunning (heap st ! r')" "interval (heap st ! r') = Some h'" "(h', r') \<in> set (timers st)"
      by blast
    have rne: "r' \<noteq> r" using c(2) o ne by auto
    have hne: "h' \<noteq> h" using uniqh[OF _] c(5) rne by auto
    have "(h', r') \<in> set (timers ?st')" unfolding tm set_delete using c(5) hne by simp
    with c rne show "case p of (u, r) \<Rightarrow>
            r < length (heap ?st') \<and> sess_userId (heap ?st' ! r) = u \<and> isRunning (heap ?st' ! r)
            \<and> (\<exists>h. interval (heap ?st' ! r) = Some h \<and> (h, r) \<in> set (timers ?st'))"
      unfolding pe by (simp add: other len)
  next
    fix p assume p: "p \<in> set (timers ?st')"
    obtain h' r' where pe: "p = (h', r')" by (cases p)
    from p have in_old: "(h', r') \<in> set (timers st)" and ne: "h' \<noteq> h"
      unfolding tm pe set_delete by auto
    from D[OF in_old] have d: "h' < nextTimer st" "r' < length (heap st)"
      "interval (heap st ! r') = Some h'" "(sess_userId (heap st ! r'), r') \<in> set (activeSessions st)"
      by blast+
    have rne: "r' \<noteq> r" using d(3) i ne by auto
    have "sess_userId (heap st ! r') \<noteq> userId" using uniq d(4) rne by auto
    then have "(sess_userId (heap st ! r'), r') \<in> set (activeSessions ?st')"
      unfolding ac set_delete using d(4) by simp
    with d rne show "case p of (h, r) \<Rightarrow>
            h < nextTimer ?st' \<and> r < length (heap ?st') \<and> interval (heap ?st' ! r) = Some h
            \<and> (sess_userId (heap ?st' ! r), r) \<in> set (activeSessions ?st')"
      unfolding pe by (simp add: other len nt)
  next
    fix r' assume a: "r' < length (heap ?st')" "isRunning (heap ?st' ! r')"
    have rne: "r' \<noteq> r" using a(2) notrun by auto
    from a rne have "r' < length (heap st)" "isRunning (heap st ! r')" by (simp_all add: other len)
    from E[OF this] have e: "(sess_userId (heap st ! r'), r') \<in> set (activeSessions st)" .
    have "sess_userId (heap st ! r') \<noteq> userId" using uniq e rne by auto
    then show "(sess_userId (heap ?st' ! r'), r') \<in> set (activeSessions ?st')"
      unfolding ac set_delete using e rne by (simp add: other)
  qed
qed

lemma update_absent: "map_of al k = None \<Longrightarrow> AList.update k v al = al @ [(k, v)]"
  by (induction al) (auto split: if_splits)

lemma createSession_state:
  assumes "map_of (activeSessions st) userId = None"
  shows "fst (createSession st userId)
         = st\<lparr>heap := heap st @ [\<lparr>sess_id = SessionAt (clock st), sess_userId = userId,
                                   interval = Some (nextTimer st), isRunning = True\<rparr>],
              timers := timers st @ [(nextTimer st, length (heap st))],
              nextTimer := Suc (nextTimer st),
              activeSessions := activeSessions st @ [(userId, length (heap st))]\<rparr>"
  using assms by (simp add: createSession_def Let_def update_absent)

lemma wellFormed_create:
  assumes w: "wellFormed st" and n: "map_of (activeSessions st) userId = None"
  shows "wellFormed (fst (createSession st userId))"
proof -
  from w have A: "distinct (map fst (activeSessions st))"
    and B: "distinct (map fst (timers st))"
    and C: "\<And>u' r'. (u', r') \<in> set (activeSessions st) \<Longrightarrow>
              r' < length (heap st) \<and> sess_userId (heap st ! r') = u' \<and> isRunning (heap st ! r')
              \<and> (\<exists>h. interval (heap st ! r') = Some h \<and> (h, r') \<in> set (timers st))"
    and D: "\<And>h' r'. (h', r') \<in> set (timers st) \<Longrightarrow>
              h' < nextTimer st \<and> r' < length (heap st) \<and> interval (heap st ! r') = Some h'
              \<and> (sess_userId (heap st ! r'), r') \<in> set (activeSessions st)"
    and E: "\<And>r'. r' < length (heap st) \<Longrightarrow> isRunning (heap st ! r') \<Longrightarrow>
              (sess_userId (heap st ! r'), r') \<in> set (activeSessions st)"
    unfolding wellFormed_def by blast+
  let ?s = "\<lparr>sess_id = SessionAt (clock st), sess_userId = userId,
             interval = Some (nextTimer st), isRunning = True\<rparr>"
  let ?r = "length (heap st)"
  let ?h = "nextTimer st"
  let ?st' = "fst (createSession st userId)"
  note eq = createSession_state[OF n]
  have hp: "heap ?st' = heap st @ [?s]"
    and tm: "timers ?st' = timers st @ [(?h, ?r)]"
    and ac: "activeSessions ?st' = activeSessions st @ [(userId, ?r)]"
    and nt: "nextTimer ?st' = Suc ?h"
    unfolding eq by simp_all
  have old: "\<And>r'. r' < ?r \<Longrightarrow> heap ?st' ! r' = heap st ! r'" unfolding hp by (simp add: nth_append)
  have new: "heap ?st' ! ?r = ?s" unfolding hp by simp
  have len: "length (heap ?st') = Suc ?r" unfolding hp by simp
  have fresh_u: "userId \<notin> fst ` set (activeSessions st)" using n by (simp add: map_of_eq_None_iff)
  have fresh_h: "?h \<notin> fst ` set (timers st)" using D by fastforce
  show ?thesis
    unfolding wellFormed_def
  proof (intro conjI ballI allI impI)
    show "distinct (map fst (activeSessions ?st'))" unfolding ac using A fresh_u by simp
    show "distinct (map fst (timers ?st'))" unfolding tm using B fresh_h by simp
  next
    fix p assume p: "p \<in> set (activeSessions ?st')"
    obtain u' r' where pe: "p = (u', r')" by (cases p)
    from p consider "(u', r') \<in> set (activeSessions st)" | "u' = userId" "r' = ?r"
      unfolding ac pe by auto
    then show "case p of (u, r) \<Rightarrow>
            r < length (heap ?st') \<and> sess_userId (heap ?st' ! r) = u \<and> isRunning (heap ?st' ! r)
            \<and> (\<exists>h. interval (heap ?st' ! r) = Some h \<and> (h, r) \<in> set (timers ?st'))"
    proof cases
      case 1
      from C[OF 1] obtain h' where c: "r' < ?r" "sess_userId (heap st ! r') = u'"
        "isRunning (heap st ! r')" "interval (heap st ! r') = Some h'" "(h', r') \<in> set (timers st)"
        by blast
      then show ?thesis unfolding pe by (simp add: old len tm)
    next
      case 2
      then show ?thesis unfolding pe by (simp add: new len tm)
    qed
  next
    fix p assume p: "p \<in> set (timers ?st')"
    obtain h' r' where pe: "p = (h', r')" by (cases p)
    from p consider "(h', r') \<in> set (timers st)" | "h' = ?h" "r' = ?r"
      unfolding tm pe by auto
    then show "case p of (h, r) \<Rightarrow>
            h < nextTimer ?st' \<and> r < length (heap ?st') \<and> interval (heap ?st' ! r) = Some h
            \<and> (sess_userId (heap ?st' ! r), r) \<in> set (activeSessions ?st')"
    proof cases
      case 1
      from D[OF 1] have d: "h' < ?h" "r' < ?r" "interval (heap st ! r') = Some h'"
        "(sess_userId (heap st ! r'), r') \<in> set (activeSessions st)" by blast+
      then show ?thesis unfolding pe by (simp add: old len nt ac)
    next
      case 2
      then show ?thesis unfolding pe by (simp add: new len nt ac)
    qed
  next
    fix r' assume a: "r' < length (heap ?st')" "isRunning (heap ?st' ! r')"
    show "(sess_userId (heap ?st' ! r'), r') \<in> set (activeSessions ?st')"
    proof (cases "r' < ?r")
      case True
      with a E[OF True] show ?thesis by (simp add: old ac)
    next
      case False
      with a(1) have "r' = ?r" by (simp add: len)
      then show ?thesis by (simp add: new ac)
    qed
  qed
qed

lemma wellFormed_start: "wellFormed st \<Longrightarrow> wellFormed (fst (startMonitoring st userId))"
  unfolding startMonitoring_eq
  by (intro wellFormed_create wellFormed_stop stopMonitoring_unregistered)

lemma wellFormed_trace: "wellFormed (st\<lparr>trace := tr\<rparr>) = wellFormed st"
  by (simp add: wellFormed_def)

lemma wellFormed_applyOp: "wellFormed st \<Longrightarrow> wellFormed (applyOp E st op)"
  by (cases op)
     (simp_all add: wellFormed_start wellFormed_stop forceScan_def fireTimer_def wellFormed_trace
        split: option.splits)

lemma wellFormed_runOps: "wellFormed st \<Longrightarrow> wellFormed (runOps E st ops)"
  unfolding runOps_def by (induction ops arbitrary: st) (simp_all add: wellFormed_applyOp)

lemma filter_key:
  "distinct (map fst al)
   \<Longrightarrow> filter (\<lambda>(k, r). k = u) al = (case map_of al u of None \<Rightarrow> [] | Some r \<Rightarrow> [(u, r)])"
proof (induction al)
  case Nil
  show ?case by simp
next
  case (Cons p al)
  obtain k r where p: "p = (k, r)" by (cases p)
  show ?case
  proof (cases "k = u")
    case True
    with Cons.prems p have "u \<notin> fst ` set al" by auto
    then have "filter (\<lambda>(k, r). k = u) al = []" by (force simp: filter_empty_conv)
    with True p show ?thesis by simp
  next
    case False
    with Cons p show ?thesis by simp
  qed
qed

lemma filter_eq_upt: "filter (\<lambda>x. x = r) [0..<n] = (if r < n then [r] else [])"
  by (induction n) auto

lemma filter_eq_distinct: "distinct xs \<Longrightarrow> x \<in> set xs \<Longrightarrow> filter (\<lambda>y. y = x) xs = [x]"
  by (induction xs) (auto simp: filter_empty_conv)

lemma registered_eq:
  "wellFormed st
   \<Longrightarrow> registered st u = (case map_of (activeSessions st) u of None \<Rightarrow> [] | Some r \<Rightarrow> [(u, r)])"
  unfolding registered_def wellFormed_def by (intro filter_key) blast

lemma liveRefs_eq:
  assumes w: "wellFormed st"
  shows "liveRefs st u = (case map_of (activeSessions st) u of None \<Rightarrow> [] | Some r \<Rightarrow> [r])"
proof -
  from w have A: "distinct (map fst (activeSessions st))"
    and C: "\<And>u' r'. (u', r') \<in> set (activeSessions st) \<Longrightarrow>
              r' < length (heap st) \<and> sess_userId (heap st ! r') = u' \<and> isRunning (heap st ! r')"
    and E: "\<And>r'. r' < length (heap st) \<Longrightarrow> isRunning (heap st ! r') \<Longrightarrow>
              (sess_userId (heap st ! r'), r') \<in> set (activeSessions st)"
    unfolding wellFormed_def by blast+
  let ?P = "\<lambda>r. isRunning (heap st ! r) \<and> sess_userId (heap st ! r) = u"
  show ?thesis
  proof (cases "map_of (activeSessions st) u")
    case None
    then have "u \<notin> fst ` set (activeSessions st)" by (simp add: map_of_eq_None_iff)
    then have "\<And>r. r < length (heap st) \<Longrightarrow> \<not> ?P r" using E by force
    then have "filter ?P [0..<length (heap st)] = []" by (simp add: filter_empty_conv)
    with None show ?thesis by (simp add: liveRefs_def)
  next
    case (Some r)
    then have ur: "(u, r) \<in> set (activeSessions st)" by (rule map_of_SomeD)
    have "\<And>r'. r' \<in> set [0..<length (heap st)] \<Longrightarrow> ?P r' = (r' = r)"
    proof -
      fix r' assume "r' \<in> set [0..<length (heap st)]"
      then have l: "r' < length (heap st)" by simp
      show "?P r' = (r' = r)"
      proof
        assume "?P r'"
        with E[OF l] have "(u, r') \<in> set (activeSessions st)" by auto
        with A ur show "r' = r" by (meson eq_key_imp_eq_value)
      next
        assume "r' = r"
        with C[OF ur] show "?P r'" by simp
      qed
    qed
    then have "filter ?P [0..<length (heap st)] = filter (\<lambda>x. x = r) [0..<length (heap st)]"
      by (intro filter_cong) auto
    with C[OF ur] Some show ?thesis by (simp add: liveRefs_def filter_eq_upt)
  qed
qed

lemma ownerTimers_eq:
  assumes w: "wellFormed st"
  shows "ownerTimers st u
         = (case map_of (activeSessions st) u of
              None \<Rightarrow> []
            | Some r \<Rightarrow> (case interval (heap st ! r) of None \<Rightarrow> [] | Some h \<Rightarrow> [(h, r)]))"
proof -
  from w have A: "distinct (map fst (activeSessions st))"
    and B: "distinct (map fst (timers st))"
    and C: "\<And>u' r'. (u', r') \<in> set (activeSessions st) \<Longrightarrow>
              r' < length (heap st) \<and> sess_userId (heap st ! r') = u'
              \<and> (\<exists>h. interval (heap st ! r') = Some h \<and> (h, r') \<in> set (timers st))"
    and D: "\<And>h' r'. (h', r') \<in> set (timers st) \<Longrightarrow>
              r' < length (heap st) \<and> interval (heap st ! r') = Some h'
              \<and> (sess_userId (heap st ! r'), r') \<in> set (activeSessions st)"
    unfolding wellFormed_def by blast+
  let ?P = "\<lambda>(h, r). r < length (heap st) \<and> sess_userId (heap st ! r) = u"
  show ?thesis
  proof (cases "map_of (activeSessions st) u")
    case None
    then have "u \<notin> fst ` set (activeSessions st)" by (simp add: map_of_eq_None_iff)
    then have "\<And>p. p \<in> set (timers st) \<Longrightarrow> \<not> ?P p" using D by force
    then have "filter ?P (timers st) = []" by (simp add: filter_empty_conv)
    with None show ?thesis by (simp add: ownerTimers_def)
  next
    case (Some r)
    then have ur: "(u, r) \<in> set (activeSessions st)" by (rule map_of_SomeD)
    from C[OF ur] obtain h where c: "r < length (heap st)" "sess_userId (heap st ! r) = u"
      "interval (heap st ! r) = Some h" "(h, r) \<in> set (timers st)" by blast
    have "\<And>p. p \<in> set (timers st) \<Longrightarrow> ?P p = (p = (h, r))"
    proof -
      fix p assume p: "p \<in> set (timers st)"
      obtain h' r' where pe: "p = (h', r')" by (cases p)
      show "?P p = (p = (h, r))"
      proof
        assume "?P p"
        with D[of h' r'] p pe have "(u, r') \<in> set (activeSessions st)"
          "interval (heap st ! r') = Some h'" by auto
        with A ur have "r' = r" by (meson eq_key_imp_eq_value)
        with \<open>interval (heap st ! r') = Some h'\<close> c(3) pe show "p = (h, r)" by simp
      next
        assume "p = (h, r)"
        with c show "?P p" by simp
      qed
    qed
    then have "filter ?P (timers st) = filter (\<lambda>y. y = (h, r)) (timers st)"
      by (intro filter_cong) auto
    moreover have "distinct (timers st)" using B by (simp add: distinct_map)
    ultimately have "filter ?P (timers st) = [(h, r)]"
      using c(4) by (simp add: filter_eq_distinct)
    with Some c(3) show ?thesis by (simp add: ownerTimers_def)
  qed
qed

lemma registered_interval:
  "wellFormed st \<Longrightarrow> map_of (activeSessions st) u = Some r
   \<Longrightarrow> r < length (heap st) \<and> sess_userId (heap st ! r) = u \<and> isRunning (heap st ! r)
       \<and> (\<exists>h. interval (heap st ! r) = Some h \<and> map_of (timers st) h = Some r)"
  unfolding wellFormed_def by (fastforce dest: map_of_SomeD)

lemma stopMonitoring_sizes:
  "length (heap (stopMonitoring st userId)) = length (heap st)
   \<and> nextTimer (stopMonitoring st userId) = nextTimer st"
  by (simp add: stopMonitoring_def Let_def split: option.splits)

lemma stopMonitoring_old_object:
  assumes w: "wellFormed st" and m: "map_of (activeSessions st) userId = Some r"
  shows "\<not> isRunning (heap (stopMonitoring st userId) ! r)
         \<and> interval (heap (stopMonitoring st userId) ! r) = None"
proof -
  from registered_interval[OF w m] obtain h where l: "r < length (heap st)"
    and i: "interval (heap st ! r) = Some h" by blast
  show ?thesis unfolding stopMonitoring_present[OF m i l] using l by simp
qed

lemma createSession_registered:
  assumes "map_of (activeSessions st) userId = None"
  shows "map_of (activeSessions (fst (createSession st userId))) userId = Some (length (heap st))
         \<and> interval (heap (fst (createSession st userId)) ! length (heap st)) = Some (nextTimer st)"
  unfolding createSession_state[OF assms] using assms by (simp add: map_add_def)

text \<open>
  Claim C4. In every state reached from the initial one by a sequence of operations
  (start, stop, status, force scan, a live interval firing), each owner has at most one
  running session object, at most one live interval and at most one registry entry, and
  the three name the same session object. \<open>startMonitoring\<close> is \<open>stopMonitoring\<close>
  followed by the creation of the session: in the state between the two the owner has no
  running session object, no live interval and no registry entry, the session object
  that was registered is not running and holds no interval, and after the creation the
  owner's one session is the newly allocated object with the newly set interval.
\<close>

theorem one_live_session_per_owner:
  "(let st = runOps E initEngine ops;
        st1 = stopMonitoring st userId;
        st2 = fst (startMonitoring st userId)
    in length (liveRefs st u) \<le> 1 \<and> length (ownerTimers st u) \<le> 1
       \<and> length (registered st u) \<le> 1
       \<and> map snd (registered st u) = liveRefs st u
       \<and> map snd (ownerTimers st u) = liveRefs st u
       \<and> startMonitoring st userId = createSession st1 userId
       \<and> liveRefs st1 userId = [] \<and> ownerTimers st1 userId = [] \<and> registered st1 userId = []
       \<and> (\<forall>r \<in> set (liveRefs st userId).
             r < length (heap st) \<and> \<not> isRunning (heap st1 ! r) \<and> interval (heap st1 ! r) = None)
       \<and> liveRefs st2 userId = [length (heap st)]
       \<and> registered st2 userId = [(userId, length (heap st))]
       \<and> ownerTimers st2 userId = [(nextTimer st, length (heap st))])"
proof -
  define st where "st = runOps E initEngine ops"
  define st1 where "st1 = stopMonitoring st userId"
  define st2 where "st2 = fst (startMonitoring st userId)"
  have w: "wellFormed st" unfolding st_def by (intro wellFormed_runOps wellFormed_init)
  have w1: "wellFormed st1" unfolding st1_def using w by (rule wellFormed_stop)
  have w2: "wellFormed st2" unfolding st2_def using w by (rule wellFormed_start)
  have n1: "map_of (activeSessions st1) userId = None"
    unfolding st1_def by (rule stopMonitoring_unregistered)
  have s2: "st2 = fst (createSession st1 userId)"
    unfolding st2_def st1_def by (simp add: startMonitoring_eq)
  have sz: "length (heap st1) = length (heap st)" "nextTimer st1 = nextTimer st"
    unfolding st1_def using stopMonitoring_sizes[of st userId] by simp_all
  from createSession_registered[OF n1]
  have m2: "map_of (activeSessions st2) userId = Some (length (heap st))"
    and i2: "interval (heap st2 ! length (heap st)) = Some (nextTimer st)"
    unfolding s2 sz by simp_all
  have a: "length (liveRefs st u) \<le> 1 \<and> length (ownerTimers st u) \<le> 1
           \<and> length (registered st u) \<le> 1
           \<and> map snd (registered st u) = liveRefs st u
           \<and> map snd (ownerTimers st u) = liveRefs st u"
  proof (cases "map_of (activeSessions st) u")
    case None
    then show ?thesis by (simp add: liveRefs_eq[OF w] ownerTimers_eq[OF w] registered_eq[OF w])
  next
    case (Some r)
    with registered_interval[OF w Some] show ?thesis
      by (auto simp: liveRefs_eq[OF w] ownerTimers_eq[OF w] registered_eq[OF w])
  qed
  have b: "startMonitoring st userId = createSession st1 userId"
    unfolding st1_def by (rule startMonitoring_eq)
  have c: "liveRefs st1 userId = [] \<and> ownerTimers st1 userId = [] \<and> registered st1 userId = []"
    by (simp add: liveRefs_eq[OF w1] ownerTimers_eq[OF w1] registered_eq[OF w1] n1)
  have d: "\<forall>r \<in> set (liveRefs st userId).
             r < length (heap st) \<and> \<not> isRunning (heap st1 ! r) \<and> interval (heap st1 ! r) = None"
  proof (cases "map_of (activeSessions st) userId")
    case None
    then show ?thesis by (simp add: liveRefs_eq[OF w])
  next
    case (Some r)
    with registered_interval[OF w Some] stopMonitoring_old_object[OF w Some]
    show ?thesis unfolding st1_def by (simp add: liveRefs_eq[OF w])
  qed
  have e: "liveRefs st2 userId = [length (heap st)]
           \<and> registered st2 userId = [(userId, length (heap st))]
           \<and> ownerTimers st2 userId = [(nextTimer st, length (heap st))]"
    by (simp add: liveRefs_eq[OF w2] ownerTimers_eq[OF w2] registered_eq[OF w2] m2 i2)
  from a b c d e show ?thesis
    unfolding Let_def st_def[symmetric] st1_def[symmetric] st2_def[symmetric] by blast
qed

theorem one_live_session_per_owner_witness:
  "liveRefs (runOps sampleEnv initEngine sampleOps) (js ''u1'') = [2]
   \<and> length (heap (runOps sampleEnv initEngine sampleOps)) = 3
   \<and> \<not> isRunning (heap (stopMonitoring (runOps sampleEnv initEngine sampleOps) (js ''u1'')) ! 2)
   \<and> liveRefs (stopMonitoring (runOps sampleEnv initEngine sampleOps) (js ''u1'')) (js ''u1'') = []
   \<and> liveRefs (fst (startMonitoring (runOps sampleEnv initEngine sampleOps) (js ''u1'')))
        (js ''u1'') = [3]
   \<and> registered (fst (startMonitoring (runOps sampleEnv initEngine sampleOps) (js ''u1'')))
        (js ''u1'') = [(js ''u1'', 3)]"
proof -
  let ?st = "runOps sampleEnv initEngine sampleOps"
  let ?st1 = "stopMonitoring ?st (js ''u1'')"
  let ?st2 = "fst (startMonitoring ?st (js ''u1''))"
  have l: "liveRefs ?st (js ''u1'') = [2]"
    by code_simp
  have h: "length (heap ?st) = 3"
    by code_simp
  note T = one_live_session_per_owner[of sampleEnv sampleOps "js ''u1''" "js ''u1''",
      unfolded Let_def]
  from T have c7: "liveRefs ?st1 (js ''u1'') = []"
    by (elim conjE)
  from T have c10: "\<forall>r \<in> set (liveRefs ?st (js ''u1'')).
      r < length (heap ?st) \<and> \<not> isRunning (heap ?st1 ! r) \<and> interval (heap ?st1 ! r) = None"
    by (elim conjE)
  from T have c11: "liveRefs ?st2 (js ''u1'') = [length (heap ?st)]"
    by (elim conjE)
  from T have c12: "registered ?st2 (js ''u1'') = [(js ''u1'', length (heap ?st))]"
    by (elim conjE)
  from c10 have c10': "\<not> isRunning (heap ?st1 ! 2)" unfolding l by simp
  show ?thesis
    apply (intro conjI)
         apply (rule l)
        apply (rule h)
       apply (rule c10')
      apply (rule c7)
     apply (rule c11[unfolded h])
    apply (rule c12[unfolded h])
    done
qed


subsection \<open>A tick\<close>

lemma includesStr_occurs:
  "includesStr s pat \<longleftrightarrow> (\<exists>pre post. s = pre @ pat @ post)"
proof
  assume "includesStr s pat"
  then obtain i where i: "i \<le> length s" "take (length pat) (drop i s) = pat"
    unfolding includesStr_iff startsWith_def by blast
  have "drop i s = take (length pat) (drop i s) @ drop (length pat) (drop i s)"
    by (simp only: append_take_drop_id)
  with i(2) have "drop i s = pat @ drop (length pat) (drop i s)" by simp
  moreover have "s = take i s @ drop i s" by (simp only: append_take_drop_id)
  ultimately have "s = take i s @ pat @ drop (length pat) (drop i s)" by simp
  then show "\<exists>pre post. s = pre @ pat @ post" by blast
next
  assume "\<exists>pre post. s = pre @ pat @ post"
  then obtain pre post where s: "s = pre @ pat @ post" by blast
  have "length pre \<le> length s \<and> startsWith (drop (length pre) s) pat"
    unfolding s startsWith_def by simp
  then show "includesStr s pat" unfolding includesStr_iff by blast
qed

lemma tick_targets:
  "getActiveByUser E h uid = Inr ts \<Longrightarrow> ts \<noteq> []
   \<Longrightarrow> tick E True uid h
       = GetActiveByUser uid # scanTargets E uid (h @ [GetActiveByUser uid]) ts
         @ [OnNoise (generateNoise E
              (h @ GetActiveByUser uid # scanTargets E uid (h @ [GetActiveByUser uid]) ts))]"
  by (simp add: tick_def Let_def)

lemma scanTargets_append:
  "scanTargets E uid h (ts1 @ ts2)
   = scanTargets E uid h ts1 @ scanTargets E uid (h @ scanTargets E uid h ts1) ts2"
  by (induction ts1 arbitrary: h) (simp_all add: Let_def)

lemma signal_tick_shape:
  assumes g: "getActiveByUser E h uid = Inr [t]"
    and v: "validateUrl E (target_url t) = Inr v"
    and f: "fetchPage E (h @ [GetActiveByUser uid]) v = Inr (text, hsh)"
    and k: "k \<in> set (target_keywords t)"
           "\<exists>pre post. toLowerCase E text = pre @ toLowerCase E k @ post"
    and d: "last_hash t \<noteq> Some hsh"
    and u: "updateLastCheck E (h @ [GetActiveByUser uid, Fetch v]) (target_id t) hsh = None"
    and c: "\<forall>h' row. \<exists>sid. signalsCreate E h' row = Inr sid"
  shows "\<exists>ev3 row dat.
           list_all isChatCompletion ev3 \<and> row_target_id row = target_id t
           \<and> data_url dat = target_url t
           \<and> tick E True uid h
             = [GetActiveByUser uid, Fetch v, UpdateLastCheck (target_id t) hsh] @ ev3
               @ [SignalsCreate row, OnSignal dat, Sleep 1000,
                  OnNoise (generateNoise E
                    (h @ [GetActiveByUser uid, Fetch v, UpdateLastCheck (target_id t) hsh]
                       @ ev3 @ [SignalsCreate row, OnSignal dat, Sleep 1000]))]"
proof -
  let ?h1 = "h @ [GetActiveByUser uid]"
  let ?m = "filter (\<lambda>k. includesStr (toLowerCase E text) (toLowerCase E k)) (target_keywords t)"
  let ?r = "\<lparr>changed = True, matches = ?m,
            content = (if ?m = [] then [] else extractRelevantContent E text ?m), hash = hsh\<rparr>"
  have m: "?m \<noteq> []" using k by (auto simp: filter_empty_conv includesStr_occurs)
  have cs: "checkForSignal E ?h1 (target_url t) (target_keywords t) (last_hash t)
            = ([Fetch v], Inr ?r)"
    using checkForSignal_changed[OF v f d] by simp
  obtain ev3 ai where a: "analyzeIfContent E (?h1 @ [Fetch v] @ [UpdateLastCheck (target_id t) (hash ?r)]) ?r
                          = (ev3, ai)"
    by (cases "analyzeIfContent E (?h1 @ [Fetch v] @ [UpdateLastCheck (target_id t) (hash ?r)]) ?r")
       auto
  let ?row = "signalRow uid t ?r ai"
  let ?h3 = "?h1 @ [Fetch v] @ [UpdateLastCheck (target_id t) (hash ?r)] @ ev3"
  from c obtain sid where sid: "signalsCreate E ?h3 ?row = Inr sid" by blast
  let ?dat = "signalData sid t ?r ai (isoNow E (?h3 @ [SignalsCreate ?row]))"
  have u': "updateLastCheck E (?h1 @ [Fetch v]) (target_id t) (hash ?r) = None"
    using u by simp
  have m': "matches ?r \<noteq> []" using m by simp
  have p: "processTarget E uid ?h1 t
           = [Fetch v, UpdateLastCheck (target_id t) hsh] @ ev3
             @ [SignalsCreate ?row, OnSignal ?dat, Sleep 1000]"
    using processTarget_match[OF cs u' m' a, of uid] sid by simp
  have tk: "tick E True uid h
            = GetActiveByUser uid # processTarget E uid ?h1 t
              @ [OnNoise (generateNoise E (h @ GetActiveByUser uid # processTarget E uid ?h1 t))]"
    using tick_targets[OF g] by (simp add: Let_def)
  have e3: "list_all isChatCompletion ev3" using a by (rule analyzeIfContent_events)
  have r1: "row_target_id ?row = target_id t" by (simp add: signalRow_def)
  have r2: "data_url ?dat = target_url t" by (simp add: signalData_def)
  have "tick E True uid h
        = [GetActiveByUser uid, Fetch v, UpdateLastCheck (target_id t) hsh] @ ev3
          @ [SignalsCreate ?row, OnSignal ?dat, Sleep 1000,
             OnNoise (generateNoise E
               (h @ [GetActiveByUser uid, Fetch v, UpdateLastCheck (target_id t) hsh]
                  @ ev3 @ [SignalsCreate ?row, OnSignal ?dat, Sleep 1000]))]"
    unfolding tk p by simp
  with e3 r1 r2 show ?thesis by blast
qed

lemma chat_filters:
  "list_all isChatCompletion evs
   \<Longrightarrow> filter isOnSignal evs = [] \<and> filter isOnNoise evs = [] \<and> filter isUpdateLastCheck evs = []
       \<and> filter isSignalsCreate evs = []"
proof (induction evs)
  case Nil
  show ?case by simp
next
  case (Cons ev evs)
  then show ?case by (cases ev) simp_all
qed

text \<open>
  Claim C5, as amended. In a tick of a running session whose owner has one active
  target, when the page is fetched, one of the target's keywords occurs in the
  lower-cased text, the new hash differs from the stored one, and the storage accepts the
  update and the insert: exactly one signal event is emitted, for that target; no noise
  event is emitted for the target (the only noise event of the tick is the periodic one
  that ends it); the storage receives exactly one \<open>updateLastCheck\<close> call, with the
  target's id and the new hash, and exactly one \<open>signals.create\<close> call, for that
  target.
\<close>

theorem signal_tick_events:
  assumes "getActiveByUser E h uid = Inr [t]"
    and "validateUrl E (target_url t) = Inr v"
    and "fetchPage E (h @ [GetActiveByUser uid]) v = Inr (text, hsh)"
    and "k \<in> set (target_keywords t)"
    and "\<exists>pre post. toLowerCase E text = pre @ toLowerCase E k @ post"
    and "last_hash t \<noteq> Some hsh"
    and "updateLastCheck E (h @ [GetActiveByUser uid, Fetch v]) (target_id t) hsh = None"
    and "\<forall>h' row. \<exists>sid. signalsCreate E h' row = Inr sid"
  shows "(\<exists>dat. filter isOnSignal (tick E True uid h) = [OnSignal dat]
               \<and> data_url dat = target_url t)
         \<and> filter isOnNoise (butlast (tick E True uid h)) = []
         \<and> last (tick E True uid h)
             = OnNoise (generateNoise E (h @ butlast (tick E True uid h)))
         \<and> filter isUpdateLastCheck (tick E True uid h) = [UpdateLastCheck (target_id t) hsh]
         \<and> (\<exists>row. filter isSignalsCreate (tick E True uid h) = [SignalsCreate row]
                  \<and> row_target_id row = target_id t)"
proof -
  from signal_tick_shape[OF assms] obtain ev3 row dat where
    e: "list_all isChatCompletion ev3" and r: "row_target_id row = target_id t"
    and d: "data_url dat = target_url t"
    and t: "tick E True uid h
            = [GetActiveByUser uid, Fetch v, UpdateLastCheck (target_id t) hsh] @ ev3
              @ [SignalsCreate row, OnSignal dat, Sleep 1000,
                 OnNoise (generateNoise E
                   (h @ [GetActiveByUser uid, Fetch v, UpdateLastCheck (target_id t) hsh]
                      @ ev3 @ [SignalsCreate row, OnSignal dat, Sleep 1000]))]"
    by blast
  note f = chat_filters[OF e]
  have b: "butlast (tick E True uid h)
           = [GetActiveByUser uid, Fetch v, UpdateLastCheck (target_id t) hsh] @ ev3
             @ [SignalsCreate row, OnSignal dat, Sleep 1000]"
    unfolding t by (simp add: butlast_append)
  have 1: "filter isOnSignal (tick E True uid h) = [OnSignal dat]"
    unfolding t using f by simp
  have 2: "filter isOnNoise (butlast (tick E True uid h)) = []"
    unfolding b using f by simp
  have 3: "last (tick E True uid h) = OnNoise (generateNoise E (h @ butlast (tick E True uid h)))"
    unfolding b unfolding t by simp
  have 4: "filter isUpdateLastCheck (tick E True uid h) = [UpdateLastCheck (target_id t) hsh]"
    unfolding t using f by simp
  have 5: "filter isSignalsCreate (tick E True uid h) = [SignalsCreate row]"
    unfolding t using f by simp
  from 1 2 3 4 5 r d show ?thesis by blast
qed

theorem signal_tick_events_witness:
  "length (filter isOnSignal (tick sampleEnv True (js ''u1'') [])) = 1
   \<and> filter isOnNoise (butlast (tick sampleEnv True (js ''u1'') [])) = []
   \<and> filter isUpdateLastCheck (tick sampleEnv True (js ''u1'') [])
       = [UpdateLastCheck (js ''t1'') (js ''h1'')]
   \<and> length (filter isSignalsCreate (tick sampleEnv True (js ''u1'') [])) = 1"
proof -
  have 1: "getActiveByUser sampleEnv [] (js ''u1'') = Inr [sampleTarget]"
    by code_simp
  have 2: "validateUrl sampleEnv (target_url sampleTarget) = Inr (js ''https://example.com/'')"
    by code_simp
  have 3: "fetchPage sampleEnv ([] @ [GetActiveByUser (js ''u1'')]) (js ''https://example.com/'')
           = Inr (js ''New AI model'', js ''h1'')"
    by code_simp
  have 4: "js ''AI'' \<in> set (target_keywords sampleTarget)"
    by code_simp
  have "includesStr (toLowerCase sampleEnv (js ''New AI model'')) (toLowerCase sampleEnv (js ''AI''))"
    by code_simp
  then have 5: "\<exists>pre post. toLowerCase sampleEnv (js ''New AI model'')
                            = pre @ toLowerCase sampleEnv (js ''AI'') @ post"
    by (simp only: includesStr_occurs)
  have 6: "last_hash sampleTarget \<noteq> Some (js ''h1'')"
    by code_simp
  have 7: "updateLastCheck sampleEnv
             ([] @ [GetActiveByUser (js ''u1''), Fetch (js ''https://example.com/'')])
             (target_id sampleTarget) (js ''h1'') = None"
    by code_simp
  have 8: "\<forall>h' row. \<exists>sid. signalsCreate sampleEnv h' row = Inr sid"
    by (simp add: sampleEnv_def)
  have i: "target_id sampleTarget = js ''t1''"
    by code_simp
  note T = signal_tick_events[OF 1 2 3 4 5 6 7 8]
  from T have a: "length (filter isOnSignal (tick sampleEnv True (js ''u1'') [])) = 1"
    by auto
  from T have b: "filter isOnNoise (butlast (tick sampleEnv True (js ''u1'') [])) = []"
    by (elim conjE)
  from T have c: "filter isUpdateLastCheck (tick sampleEnv True (js ''u1'') [])
                  = [UpdateLastCheck (target_id sampleTarget) (js ''h1'')]"
    by (elim conjE)
  from T have d: "length (filter isSignalsCreate (tick sampleEnv True (js ''u1'') [])) = 1"
    by auto
  show ?thesis
    apply (intro conjI)
       apply (rule a)
      apply (rule b)
     apply (rule c[unfolded i])
    apply (rule d)
    done
qed

text \<open>
  The claim as stated, without the condition on the storage, fails: with the same
  target, page and stored hash, a storage that refuses the update leaves the tick
  without any \<open>signals.create\<close> call and without any signal event; the target gets an
  error line instead.
\<close>

theorem signal_tick_counterexample:
  "getActiveByUser storageDownEnv [] (js ''u1'') = Inr [sampleTarget]
   \<and> fetchPage storageDownEnv [GetActiveByUser (js ''u1'')] (js ''https://example.com/'')
       = Inr (js ''New AI model'', js ''h1'')
   \<and> includesStr (toLowerCase storageDownEnv (js ''New AI model''))
         (toLowerCase storageDownEnv (js ''AI''))
   \<and> last_hash sampleTarget \<noteq> Some (js ''h1'')
   \<and> tick storageDownEnv True (js ''u1'') []
       = [GetActiveByUser (js ''u1''), Fetch (js ''https://example.com/''),
          UpdateLastCheck (js ''t1'') (js ''h1''),
          OnNoise (js ''[ERROR] News - storage unavailable''), Sleep 1000,
          OnNoise (js ''0x00'')]
   \<and> filter isOnSignal (tick storageDownEnv True (js ''u1'') []) = []
   \<and> filter isSignalsCreate (tick storageDownEnv True (js ''u1'') []) = []"
proof -
  have 1: "getActiveByUser storageDownEnv [] (js ''u1'') = Inr [sampleTarget]"
    by code_simp
  have 2: "fetchPage storageDownEnv [GetActiveByUser (js ''u1'')] (js ''https://example.com/'')
           = Inr (js ''New AI model'', js ''h1'')"
    by code_simp
  have 3: "includesStr (toLowerCase storageDownEnv (js ''New AI model''))
             (toLowerCase storageDownEnv (js ''AI''))"
    by code_simp
  have 4: "last_hash sampleTarget \<noteq> Some (js ''h1'')"
    by code_simp
  have 5: "tick storageDownEnv True (js ''u1'') []
           = [GetActiveByUser (js ''u1''), Fetch (js ''https://example.com/''),
              UpdateLastCheck (js ''t1'') (js ''h1''),
              OnNoise (js ''[ERROR] News - storage unavailable''), Sleep 1000,
              OnNoise (js ''0x00'')]"
    by code_simp
  have 6: "filter isOnSignal (tick storageDownEnv True (js ''u1'') []) = []"
    unfolding 5 by simp
  have 7: "filter isSignalsCreate (tick storageDownEnv True (js ''u1'') []) = []"
    unfolding 5 by simp
  show ?thesis
    apply (intro conjI)
          apply (rule 1)
         apply (rule 2)
        apply (rule 3)
       apply (rule 4)
      apply (rule 5)
     apply (rule 6)
    apply (rule 7)
    done
qed


subsection \<open>A failing target\<close>

lemma tryTarget_exception_quiet:
  assumes "tryTarget E uid h t = (evs, Some e)"
  shows "filter isOnSignal evs = [] \<and> filter isOnNoise evs = []"
proof -
  obtain ev1 r1 where c: "checkForSignal E h (target_url t) (target_keywords t) (last_hash t) = (ev1, r1)"
    by (cases "checkForSignal E h (target_url t) (target_keywords t) (last_hash t)") auto
  from checkForSignal_only_fetch[OF c]
  have f1: "filter isOnSignal ev1 = [] \<and> filter isOnNoise ev1 = []" by auto
  show ?thesis
  proof (cases r1)
    case (Inl e')
    with assms c f1 show ?thesis by (simp add: tryTarget_def)
  next
    case (Inr r)
    let ?ev2 = "ev1 @ [UpdateLastCheck (target_id t) (hash r)]"
    show ?thesis
    proof (cases "updateLastCheck E (h @ ev1) (target_id t) (hash r)")
      case (Some e')
      with assms c Inr f1 show ?thesis by (auto simp: tryTarget_def)
    next
      case None
      show ?thesis
      proof (cases "matches r = []")
        case True
        with assms c Inr None show ?thesis by (simp add: tryTarget_def Let_def split: if_splits)
      next
        case False
        obtain ev3 a where a: "analyzeIfContent E (h @ ?ev2) r = (ev3, a)"
          by (cases "analyzeIfContent E (h @ ?ev2) r") auto
        from chat_filters[OF analyzeIfContent_events[OF a]]
        have f3: "filter isOnSignal ev3 = [] \<and> filter isOnNoise ev3 = []" by simp
        from assms c Inr None False a
        have "saveAndNotify E uid (h @ ?ev2 @ ev3) t r a = (drop (length (?ev2 @ ev3)) evs, Some e)
              \<and> evs = ?ev2 @ ev3 @ drop (length (?ev2 @ ev3)) evs"
          by (auto simp: tryTarget_def Let_def split: prod.splits)
        then obtain ev4 where s: "saveAndNotify E uid (h @ ?ev2 @ ev3) t r a = (ev4, Some e)"
          and ev: "evs = ?ev2 @ ev3 @ ev4" by blast
        from s have "\<exists>row. ev4 = [SignalsCreate row]"
          by (auto simp: saveAndNotify_def Let_def split: sum.splits)
        with ev f1 f3 show ?thesis by auto
      qed
    qed
  qed
qed

lemma processTarget_exception:
  assumes "snd (tryTarget E uid h t) = Some e"
  shows "filter isEmission (processTarget E uid h t) = [OnNoise (errorLine t e)]
         \<and> last (processTarget E uid h t) = Sleep 1000"
proof -
  obtain evs where t: "tryTarget E uid h t = (evs, Some e)"
    using assms by (cases "tryTarget E uid h t") auto
  have p: "processTarget E uid h t = evs @ [OnNoise (errorLine t e), Sleep 1000]"
    using t by (simp add: processTarget_def)
  have "filter isEmission evs = []"
    using tryTarget_exception_quiet[OF t] by (auto simp: filter_empty_conv isEmission_def)
  then show ?thesis unfolding p by (simp add: isEmission_def)
qed

lemma tryTarget_check_error:
  "snd (checkForSignal E h (target_url t) (target_keywords t) (last_hash t)) = Inl e
   \<Longrightarrow> snd (tryTarget E uid h t) = Some e"
  by (cases "checkForSignal E h (target_url t) (target_keywords t) (last_hash t)")
     (simp add: tryTarget_def)

lemma scanTargets_middle:
  "scanTargets E uid h (ts1 @ t # ts2)
   = scanTargets E uid h ts1
     @ processTarget E uid (h @ scanTargets E uid h ts1) t
     @ scanTargets E uid
         (h @ scanTargets E uid h ts1 @ processTarget E uid (h @ scanTargets E uid h ts1) t) ts2"
  by (simp add: scanTargets_append Let_def)

lemma timeout_tick:
  assumes g: "getActiveByUser E h uid = Inr [t1, t2]"
    and v1: "validateUrl E (target_url t1) = Inr v1"
    and f1: "fetchPage E (h @ [GetActiveByUser uid]) v1 = Inl e1"
    and v2: "validateUrl E (target_url t2) = Inr v2"
    and f2: "fetchPage E
               (h @ [GetActiveByUser uid, Fetch v1, OnNoise (errorLine t1 e1), Sleep 1000]) v2
             = Inr (text, hsh)"
    and n: "\<forall>k \<in> set (target_keywords t2).
              \<not> (\<exists>pre post. toLowerCase E text = pre @ toLowerCase E k @ post)"
  shows "tick E True uid h
         = [GetActiveByUser uid, Fetch v1, OnNoise (errorLine t1 e1), Sleep 1000, Fetch v2,
            UpdateLastCheck (target_id t2) hsh,
            OnNoise
              (case updateLastCheck E
                      (h @ [GetActiveByUser uid, Fetch v1, OnNoise (errorLine t1 e1), Sleep 1000,
                            Fetch v2])
                      (target_id t2) hsh of
                 Some e2 \<Rightarrow> errorLine t2 e2
               | None \<Rightarrow> if last_hash t2 = Some hsh then noChangeLine t2 else updatedLine t2),
            Sleep 1000,
            OnNoise (generateNoise E
              (h @ [GetActiveByUser uid, Fetch v1, OnNoise (errorLine t1 e1), Sleep 1000, Fetch v2,
                    UpdateLastCheck (target_id t2) hsh,
                    OnNoise
                      (case updateLastCheck E
                              (h @ [GetActiveByUser uid, Fetch v1, OnNoise (errorLine t1 e1),
                                    Sleep 1000, Fetch v2])
                              (target_id t2) hsh of
                         Some e2 \<Rightarrow> errorLine t2 e2
                       | None \<Rightarrow>
                           if last_hash t2 = Some hsh then noChangeLine t2 else updatedLine t2),
                    Sleep 1000]))]"
proof -
  let ?h1 = "h @ [GetActiveByUser uid]"
  let ?p1 = "[Fetch v1, OnNoise (errorLine t1 e1), Sleep 1000]"
  let ?h2 = "h @ [GetActiveByUser uid, Fetch v1, OnNoise (errorLine t1 e1), Sleep 1000]"
  have c1: "checkForSignal E ?h1 (target_url t1) (target_keywords t1) (last_hash t1)
            = ([Fetch v1], Inl e1)"
    using v1 f1 by (rule checkForSignal_fetch_error)
  have p1: "processTarget E uid ?h1 t1 = ?p1"
    using processTarget_check_error[OF c1, of uid] by simp
  have m: "filter (\<lambda>k. includesStr (toLowerCase E text) (toLowerCase E k)) (target_keywords t2) = []"
    using n by (simp add: filter_empty_conv includesStr_occurs)
  have c2: "\<exists>r. checkForSignal E ?h2 (target_url t2) (target_keywords t2) (last_hash t2)
                  = ([Fetch v2], Inr r)
                \<and> matches r = [] \<and> hash r = hsh \<and> changed r = (last_hash t2 \<noteq> Some hsh)"
  proof (cases "last_hash t2 = Some hsh")
    case True
    from checkForSignal_unchanged[OF v2 f2 True, of "target_keywords t2"] True
    show ?thesis by simp
  next
    case False
    from checkForSignal_changed[OF v2 f2 False, of "target_keywords t2"] False m
    show ?thesis by simp
  qed
  then obtain r where c2': "checkForSignal E ?h2 (target_url t2) (target_keywords t2) (last_hash t2)
                            = ([Fetch v2], Inr r)"
    and r: "matches r = []" "hash r = hsh" "changed r = (last_hash t2 \<noteq> Some hsh)" by blast
  have p2: "processTarget E uid ?h2 t2
            = [Fetch v2, UpdateLastCheck (target_id t2) hsh,
               OnNoise (case updateLastCheck E (?h2 @ [Fetch v2]) (target_id t2) hsh of
                          Some e2 \<Rightarrow> errorLine t2 e2
                        | None \<Rightarrow>
                            if last_hash t2 = Some hsh then noChangeLine t2 else updatedLine t2),
               Sleep 1000]"
  proof (cases "updateLastCheck E (?h2 @ [Fetch v2]) (target_id t2) hsh")
    case None
    then show ?thesis
      using processTarget_no_match[OF c2', where uid = uid] r by simp
  next
    case (Some e2)
    then show ?thesis
      using processTarget_update_error[OF c2', where uid = uid and e = e2] r by simp
  qed
  have s: "scanTargets E uid ?h1 [t1, t2] = ?p1 @ processTarget E uid ?h2 t2"
    using p1 by (simp add: Let_def)
  have tk: "tick E True uid h
            = GetActiveByUser uid # scanTargets E uid ?h1 [t1, t2]
              @ [OnNoise (generateNoise E (h @ GetActiveByUser uid # scanTargets E uid ?h1 [t1, t2]))]"
    using tick_targets[OF g] by simp
  show ?thesis
    unfolding tk unfolding s unfolding p2 by simp
qed

text \<open>
  Claim C6. The loop of a tick handles its targets one after the other, each after the
  events of those before it, whatever happened to them. When the URL of a target is
  refused or its fetch throws, the target gets exactly its error line, followed by the
  pause; more generally, when any step of the target's \<open>try\<close> block throws, the only
  event emitted for the target is its error line, and the iteration ends with the pause.
  With two targets, a fetch of the first that throws and a page of the second that
  holds none of its keywords, the tick emits the error line of the first target, one
  noise line for the second ("no change" or "content updated", or its error line if the
  storage refuses the update) and ends with the periodic noise.
\<close>

theorem failing_target_isolated:
  "scanTargets E uid h (ts1 @ t # ts2)
     = scanTargets E uid h ts1
       @ processTarget E uid (h @ scanTargets E uid h ts1) t
       @ scanTargets E uid
           (h @ scanTargets E uid h ts1 @ processTarget E uid (h @ scanTargets E uid h ts1) t) ts2
   \<and> (\<forall>e. validateUrl E (target_url t) = Inl e
          \<longrightarrow> processTarget E uid h t = [OnNoise (errorLine t e), Sleep 1000])
   \<and> (\<forall>v e. validateUrl E (target_url t) = Inr v \<and> fetchPage E h v = Inl e
          \<longrightarrow> processTarget E uid h t = [Fetch v, OnNoise (errorLine t e), Sleep 1000])
   \<and> (\<forall>e. snd (tryTarget E uid h t) = Some e
          \<longrightarrow> filter isEmission (processTarget E uid h t) = [OnNoise (errorLine t e)]
              \<and> last (processTarget E uid h t) = Sleep 1000)
   \<and> (\<forall>v1 e1 v2 text hsh.
         getActiveByUser E h uid = Inr [t1, t2]
         \<and> validateUrl E (target_url t1) = Inr v1
         \<and> fetchPage E (h @ [GetActiveByUser uid]) v1 = Inl e1
         \<and> validateUrl E (target_url t2) = Inr v2
         \<and> fetchPage E
               (h @ [GetActiveByUser uid, Fetch v1, OnNoise (errorLine t1 e1), Sleep 1000]) v2
             = Inr (text, hsh)
         \<and> (\<forall>k \<in> set (target_keywords t2).
               \<not> (\<exists>pre post. toLowerCase E text = pre @ toLowerCase E k @ post))
         \<longrightarrow> tick E True uid h
             = [GetActiveByUser uid, Fetch v1, OnNoise (errorLine t1 e1), Sleep 1000, Fetch v2,
                UpdateLastCheck (target_id t2) hsh,
                OnNoise
                  (case updateLastCheck E
                          (h @ [GetActiveByUser uid, Fetch v1, OnNoise (errorLine t1 e1),
                                Sleep 1000, Fetch v2])
                          (target_id t2) hsh of
                     Some e2 \<Rightarrow> errorLine t2 e2
                   | None \<Rightarrow>
                       if last_hash t2 = Some hsh then noChangeLine t2 else updatedLine t2),
                Sleep 1000,
                OnNoise (generateNoise E
                  (h @ [GetActiveByUser uid, Fetch v1, OnNoise (errorLine t1 e1), Sleep 1000,
                        Fetch v2, UpdateLastCheck (target_id t2) hsh,
                        OnNoise
                          (case updateLastCheck E
                                  (h @ [GetActiveByUser uid, Fetch v1, OnNoise (errorLine t1 e1),
                                        Sleep 1000, Fetch v2])
                                  (target_id t2) hsh of
                             Some e2 \<Rightarrow> errorLine t2 e2
                           | None \<Rightarrow>
                               if last_hash t2 = Some hsh then noChangeLine t2
                               else updatedLine t2),
                        Sleep 1000]))])"
  (is "?A \<and> ?B \<and> ?C \<and> ?D \<and> ?S")
proof -
  have a: ?A
    by (rule scanTargets_middle)
  have b: ?B
  proof (intro allI impI)
    fix e assume "validateUrl E (target_url t) = Inl e"
    then have "checkForSignal E h (target_url t) (target_keywords t) (last_hash t) = ([], Inl e)"
      by (rule checkForSignal_invalid)
    from processTarget_check_error[OF this, of uid]
    show "processTarget E uid h t = [OnNoise (errorLine t e), Sleep 1000]" by simp
  qed
  have c: ?C
  proof (intro allI impI)
    fix v e assume "validateUrl E (target_url t) = Inr v \<and> fetchPage E h v = Inl e"
    then have "checkForSignal E h (target_url t) (target_keywords t) (last_hash t)
               = ([Fetch v], Inl e)"
      using checkForSignal_fetch_error by blast
    from processTarget_check_error[OF this, of uid]
    show "processTarget E uid h t = [Fetch v, OnNoise (errorLine t e), Sleep 1000]" by simp
  qed
  have d: ?D
    using processTarget_exception[of E uid h t] by blast
  have s: ?S
    by (intro allI impI) (elim conjE, rule timeout_tick; assumption)
  from a b c d s show ?thesis by (intro conjI)
qed

theorem failing_target_isolated_witness:
  "processTarget timeoutEnv (js ''u1'') [] (sampleTarget\<lparr>target_url := js ''not-a-url''\<rparr>)
     = [OnNoise (js ''[ERROR] News - Invalid URL format''), Sleep 1000]
   \<and> processTarget timeoutEnv (js ''u1'') [] sampleTarget
     = [Fetch (js ''https://example.com/''),
        OnNoise (js ''[ERROR] News - The operation was aborted due to timeout''), Sleep 1000]
   \<and> filter isEmission (processTarget timeoutEnv (js ''u1'') [] sampleTarget)
     = [OnNoise (js ''[ERROR] News - The operation was aborted due to timeout'')]
   \<and> tick timeoutEnv True (js ''u1'') []
     = [GetActiveByUser (js ''u1''), Fetch (js ''https://example.com/''),
        OnNoise (js ''[ERROR] News - The operation was aborted due to timeout''), Sleep 1000,
        Fetch (js ''http://example.com:8080/api''), UpdateLastCheck (js ''t2'') (js ''h1''),
        OnNoise (js ''[SCAN] http://example.com:8080/api - Content updated, no signal''),
        Sleep 1000, OnNoise (js ''0x00'')]"
proof -
  let ?bad = "sampleTarget\<lparr>target_url := js ''not-a-url''\<rparr>"
  let ?msg = "js ''The operation was aborted due to timeout''"
  let ?u = "js ''u1''"
  note T = failing_target_isolated[of timeoutEnv ?u "[]" "[]" ?bad "[]"]
  note U = failing_target_isolated[of timeoutEnv ?u "[]" "[]" sampleTarget "[]"
      sampleTarget quietTarget]
  have b1: "validateUrl timeoutEnv (target_url ?bad) = Inl errInvalidFormat"
    by code_simp
  have b2: "errorLine ?bad errInvalidFormat = js ''[ERROR] News - Invalid URL format''"
    by code_simp
  have c1: "processTarget timeoutEnv ?u [] ?bad
            = [OnNoise (js ''[ERROR] News - Invalid URL format''), Sleep 1000]"
    using T[THEN conjunct2, THEN conjunct1, rule_format, OF b1] unfolding b2 .
  have f1: "validateUrl timeoutEnv (target_url sampleTarget) = Inr (js ''https://example.com/'')
            \<and> fetchPage timeoutEnv [] (js ''https://example.com/'') = Inl ?msg"
    by code_simp
  have f2: "errorLine sampleTarget ?msg
            = js ''[ERROR] News - The operation was aborted due to timeout''"
    by code_simp
  have c2: "processTarget timeoutEnv ?u [] sampleTarget
            = [Fetch (js ''https://example.com/''),
               OnNoise (js ''[ERROR] News - The operation was aborted due to timeout''),
               Sleep 1000]"
    using U[THEN conjunct2, THEN conjunct2, THEN conjunct1, rule_format, OF f1] unfolding f2 .
  have g1: "snd (tryTarget timeoutEnv ?u [] sampleTarget) = Some ?msg"
    by code_simp
  have c3: "filter isEmission (processTarget timeoutEnv ?u [] sampleTarget)
            = [OnNoise (js ''[ERROR] News - The operation was aborted due to timeout'')]"
    using U[THEN conjunct2, THEN conjunct2, THEN conjunct2, THEN conjunct1, rule_format,
        OF g1, THEN conjunct1] unfolding f2 .
  have n: "\<not> includesStr (toLowerCase timeoutEnv (js ''New AI model''))
                (toLowerCase timeoutEnv (js ''robot''))"
    by code_simp
  have k: "target_keywords quietTarget = [js ''robot'']"
    by code_simp
  have h1: "getActiveByUser timeoutEnv [] ?u = Inr [sampleTarget, quietTarget]"
    by code_simp
  have h2: "validateUrl timeoutEnv (target_url sampleTarget) = Inr (js ''https://example.com/'')"
    by code_simp
  have h3: "fetchPage timeoutEnv ([] @ [GetActiveByUser ?u]) (js ''https://example.com/'')
            = Inl ?msg"
    by code_simp
  have h4: "validateUrl timeoutEnv (target_url quietTarget) = Inr (js ''http://example.com:8080/api'')"
    by code_simp
  have h5: "fetchPage timeoutEnv
              ([] @ [GetActiveByUser ?u, Fetch (js ''https://example.com/''),
                     OnNoise (errorLine sampleTarget ?msg), Sleep 1000])
              (js ''http://example.com:8080/api'')
            = Inr (js ''New AI model'', js ''h1'')"
    by code_simp
  have h6: "\<forall>k \<in> set (target_keywords quietTarget).
              \<not> (\<exists>pre post. toLowerCase timeoutEnv (js ''New AI model'')
                               = pre @ toLowerCase timeoutEnv k @ post)"
    unfolding k using n by (simp add: includesStr_occurs)
  have hyp: "getActiveByUser timeoutEnv [] ?u = Inr [sampleTarget, quietTarget]
         \<and> validateUrl timeoutEnv (target_url sampleTarget) = Inr (js ''https://example.com/'')
         \<and> fetchPage timeoutEnv ([] @ [GetActiveByUser ?u]) (js ''https://example.com/'') = Inl ?msg
         \<and> validateUrl timeoutEnv (target_url quietTarget) = Inr (js ''http://example.com:8080/api'')
         \<and> fetchPage timeoutEnv
               ([] @ [GetActiveByUser ?u, Fetch (js ''https://example.com/''),
                      OnNoise (errorLine sampleTarget ?msg), Sleep 1000])
               (js ''http://example.com:8080/api'')
             = Inr (js ''New AI model'', js ''h1'')
         \<and> (\<forall>k \<in> set (target_keywords quietTarget).
               \<not> (\<exists>pre post. toLowerCase timeoutEnv (js ''New AI model'')
                                = pre @ toLowerCase timeoutEnv k @ post))"
    using h1 h2 h3 h4 h5 h6 by (intro conjI)
  have u: "\<And>hh i x. updateLastCheck timeoutEnv hh i x = None"
    by (simp add: timeoutEnv_def sampleEnv_def)
  have g: "\<And>hh. generateNoise timeoutEnv hh = js ''0x00''"
    by (simp add: timeoutEnv_def sampleEnv_def)
  have l: "last_hash quietTarget \<noteq> Some (js ''h1'')"
    by code_simp
  have i: "target_id quietTarget = js ''t2''"
    by code_simp
  have w: "updatedLine quietTarget
           = js ''[SCAN] http://example.com:8080/api - Content updated, no signal''"
    by code_simp
  have c4: "tick timeoutEnv True ?u []
     = [GetActiveByUser ?u, Fetch (js ''https://example.com/''),
        OnNoise (js ''[ERROR] News - The operation was aborted due to timeout''), Sleep 1000,
        Fetch (js ''http://example.com:8080/api''), UpdateLastCheck (js ''t2'') (js ''h1''),
        OnNoise (js ''[SCAN] http://example.com:8080/api - Content updated, no signal''),
        Sleep 1000, OnNoise (js ''0x00'')]"
    using U[THEN conjunct2, THEN conjunct2, THEN conjunct2, THEN conjunct2, rule_format, OF hyp]
    by (simp add: u g l i w f2)
  show ?thesis
    apply (intro conjI)
       apply (rule c1)
      apply (rule c2)
     apply (rule c3)
    apply (rule c4)
    done
qed


subsection \<open>Excerpts\<close>

lemma searchFrom_Some:
  "searchFrom pat s k = Some i \<longleftrightarrow>
     (k \<le> i \<and> i - k \<le> length s \<and> startsWith (drop (i - k) s) pat
      \<and> (\<forall>j < i - k. \<not> startsWith (drop j s) pat))"
proof (induction s arbitrary: k)
  case Nil
  show ?case by (auto simp: startsWith_def)
next
  case (Cons c cs)
  show ?case
  proof (cases "startsWith (c # cs) pat")
    case True
    have "(k \<le> i \<and> i - k \<le> length (c # cs) \<and> startsWith (drop (i - k) (c # cs)) pat
           \<and> (\<forall>j < i - k. \<not> startsWith (drop j (c # cs)) pat)) \<longleftrightarrow> i = k"
    proof
      assume a: "k \<le> i \<and> i - k \<le> length (c # cs) \<and> startsWith (drop (i - k) (c # cs)) pat
           \<and> (\<forall>j < i - k. \<not> startsWith (drop j (c # cs)) pat)"
      show "i = k"
      proof (rule ccontr)
        assume "i \<noteq> k"
        with a have "0 < i - k" by simp
        with a have "\<not> startsWith (drop 0 (c # cs)) pat" by blast
        with True show False by simp
      qed
    next
      assume "i = k"
      with True show "k \<le> i \<and> i - k \<le> length (c # cs) \<and> startsWith (drop (i - k) (c # cs)) pat
           \<and> (\<forall>j < i - k. \<not> startsWith (drop j (c # cs)) pat)" by simp
    qed
    with True show ?thesis by auto
  next
    case False
    have "(k \<le> i \<and> i - k \<le> length (c # cs) \<and> startsWith (drop (i - k) (c # cs)) pat
           \<and> (\<forall>j < i - k. \<not> startsWith (drop j (c # cs)) pat))
          \<longleftrightarrow> (Suc k \<le> i \<and> i - Suc k \<le> length cs \<and> startsWith (drop (i - Suc k) cs) pat
           \<and> (\<forall>j < i - Suc k. \<not> startsWith (drop j cs) pat))" (is "?L \<longleftrightarrow> ?R")
    proof
      assume l: ?L
      have ne: "i \<noteq> k" using l False by auto
      with l obtain d where d: "i - k = Suc d" "i - Suc k = d" by (cases "i - k") auto
      have "\<forall>j < d. \<not> startsWith (drop j cs) pat"
      proof (intro allI impI)
        fix j assume "j < d"
        then have "Suc j < i - k" using d by simp
        with l have "\<not> startsWith (drop (Suc j) (c # cs)) pat" by blast
        then show "\<not> startsWith (drop j cs) pat" by simp
      qed
      with l ne d show ?R by auto
    next
      assume r: ?R
      then obtain d where d: "i - k = Suc d" "i - Suc k = d" by (cases "i - k") auto
      have "\<forall>j < Suc d. \<not> startsWith (drop j (c # cs)) pat"
      proof (intro allI impI)
        fix j assume j: "j < Suc d"
        show "\<not> startsWith (drop j (c # cs)) pat"
        proof (cases j)
          case 0
          with False show ?thesis by simp
        next
          case (Suc j')
          with j r d show ?thesis by simp
        qed
      qed
      with r d show ?L by auto
    qed
    with False Cons.IH[of "Suc k"] show ?thesis by simp
  qed
qed

lemma drop_clamp: "drop pos s = drop (min pos (length s)) s"
  by (cases "pos \<le> length s") (simp_all add: min_def)

lemma indexOf_Some: "indexOf s pat pos = Some i \<longleftrightarrow> firstOccurrence s pat pos i"
proof -
  let ?p = "min pos (length s)"
  have "indexOf s pat pos = searchFrom pat (drop ?p s) ?p"
    unfolding indexOf_def using drop_clamp[of pos s] by simp
  then have "indexOf s pat pos = Some i \<longleftrightarrow>
     (?p \<le> i \<and> i - ?p \<le> length (drop ?p s) \<and> startsWith (drop (i - ?p) (drop ?p s)) pat
      \<and> (\<forall>j < i - ?p. \<not> startsWith (drop j (drop ?p s)) pat))"
    by (simp only: searchFrom_Some)
  also have "\<dots> \<longleftrightarrow> firstOccurrence s pat pos i"
  proof
    assume a: "?p \<le> i \<and> i - ?p \<le> length (drop ?p s) \<and> startsWith (drop (i - ?p) (drop ?p s)) pat
      \<and> (\<forall>j < i - ?p. \<not> startsWith (drop j (drop ?p s)) pat)"
    have "\<forall>j < i. ?p \<le> j \<longrightarrow> \<not> startsWith (drop j s) pat"
    proof (intro allI impI)
      fix j assume j: "j < i" "?p \<le> j"
      then have "j - ?p < i - ?p" by simp
      with a have "\<not> startsWith (drop (j - ?p) (drop ?p s)) pat" by blast
      with j show "\<not> startsWith (drop j s) pat" by simp
    qed
    with a show "firstOccurrence s pat pos i" unfolding firstOccurrence_def by auto
  next
    assume f: "firstOccurrence s pat pos i"
    have "\<forall>j < i - ?p. \<not> startsWith (drop j (drop ?p s)) pat"
    proof (intro allI impI)
      fix j assume "j < i - ?p"
      then have "j + ?p < i" "?p \<le> j + ?p" by simp_all
      with f have "\<not> startsWith (drop (j + ?p) s) pat" unfolding firstOccurrence_def by blast
      then show "\<not> startsWith (drop j (drop ?p s)) pat" by simp
    qed
    with f show "?p \<le> i \<and> i - ?p \<le> length (drop ?p s) \<and> startsWith (drop (i - ?p) (drop ?p s)) pat
      \<and> (\<forall>j < i - ?p. \<not> startsWith (drop j (drop ?p s)) pat)"
      unfolding firstOccurrence_def by auto
  qed
  finally show ?thesis .
qed

lemma indexOf_None: "indexOf s pat pos = None \<longleftrightarrow> noOccurrence s pat pos"
proof -
  let ?p = "min pos (length s)"
  have "indexOf s pat pos = searchFrom pat (drop ?p s) ?p"
    unfolding indexOf_def using drop_clamp[of pos s] by simp
  then have "indexOf s pat pos = None \<longleftrightarrow>
     (\<forall>i \<le> length (drop ?p s). \<not> startsWith (drop i (drop ?p s)) pat)"
    by (simp only: searchFrom_None_iff)
  also have "\<dots> \<longleftrightarrow> noOccurrence s pat pos"
  proof
    assume a: "\<forall>i \<le> length (drop ?p s). \<not> startsWith (drop i (drop ?p s)) pat"
    show "noOccurrence s pat pos"
      unfolding noOccurrence_def
    proof (intro allI impI)
      fix j assume j: "j \<le> length s" "?p \<le> j"
      then have "j - ?p \<le> length (drop ?p s)" by simp
      with a have "\<not> startsWith (drop (j - ?p) (drop ?p s)) pat" by blast
      with j show "\<not> startsWith (drop j s) pat" by simp
    qed
  next
    assume n: "noOccurrence s pat pos"
    show "\<forall>i \<le> length (drop ?p s). \<not> startsWith (drop i (drop ?p s)) pat"
    proof (intro allI impI)
      fix i assume "i \<le> length (drop ?p s)"
      then have "i + ?p \<le> length s" "?p \<le> i + ?p" by simp_all
      with n have "\<not> startsWith (drop (i + ?p) s) pat" unfolding noOccurrence_def by blast
      then show "\<not> startsWith (drop i (drop ?p s)) pat" by simp
    qed
  qed
  finally show ?thesis .
qed

lemma excerptLoop_chain:
  "\<exists>idxs. excerptLoop body ltxt key lkey p n = map (excerptAt body key) idxs
          \<and> length idxs \<le> MAX_OCCURRENCES - n
          \<and> occurrenceChain ltxt lkey (length key) p (MAX_OCCURRENCES - n) idxs"
proof (induction body ltxt key lkey p n rule: excerptLoop.induct)
  case (1 body ltxt key lkey p n)
  show ?case
  proof (cases "indexOf ltxt lkey p")
    case None
    then have "noOccurrence ltxt lkey p" by (simp only: indexOf_None)
    with None show ?thesis by (intro exI[of _ "[]"]) simp
  next
    case (Some i)
    then have f: "firstOccurrence ltxt lkey p i" by (simp only: indexOf_Some)
    show ?thesis
    proof (cases "n < MAX_OCCURRENCES")
      case True
      from 1[OF Some True] obtain idxs where
        i: "excerptLoop body ltxt key lkey (i + length key) (Suc n) = map (excerptAt body key) idxs"
          "length idxs \<le> MAX_OCCURRENCES - Suc n"
          "occurrenceChain ltxt lkey (length key) (i + length key) (MAX_OCCURRENCES - Suc n) idxs"
        by blast
      have e: "excerptLoop body ltxt key lkey p n = map (excerptAt body key) (i # idxs)"
        using Some True i(1) by simp
      have l: "length (i # idxs) \<le> MAX_OCCURRENCES - n" using True i(2) by simp
      have c: "occurrenceChain ltxt lkey (length key) p (MAX_OCCURRENCES - n) (i # idxs)"
        using True f i(3) by simp
      from e l c show ?thesis by blast
    next
      case False
      with Some show ?thesis by (intro exI[of _ "[]"]) simp
    qed
  qed
qed

lemma excerptAt_eq:
  "excerptAt text kw i
   = (if 200 < i then js ''...'' else [])
     @ trim (substring text (i - 200) (min (length text) (i + length kw + 200)))
     @ (if i + length kw + 200 < length text then js ''...'' else [])"
proof -
  have s: "nat (max 0 (int i - int 200)) = i - 200" by simp
  show ?thesis
    unfolding excerptAt_def CONTEXT_RADIUS_def s Let_def by (simp add: min_def)
qed

lemma extractRelevantContent_eq:
  "extractRelevantContent E text kws
   = take 3000 (joinWith excerptSeparator (concat (map (\<lambda>kw.
        excerptLoop text (toLowerCase E text) kw (toLowerCase E kw) 0 0) kws)))"
  by (simp add: extractRelevantContent_def substring_def MAX_EXCERPT_LENGTH_def Let_def min_def)

text \<open>
  Claim C3, as amended. The excerpt of a text for a list of matched keywords is the join
  of the excerpts of each keyword, cut at 3,000 code units. For one keyword the excerpts
  are those of at most three occurrences of the lower-cased keyword in the lower-cased
  text, earliest first, each searched from the end of the previous one. The excerpt at
  an occurrence is the trimmed text from 200 code units before the occurrence to 200
  after the keyword, clamped to the text; an ellipsis is prefixed exactly when this
  window starts after the beginning of the text and suffixed exactly when it ends before
  the end of the text. So a side on which the window was clipped by the text boundary
  carries no ellipsis.
\<close>

theorem excerpt_bounded_and_marked:
  "length (extractRelevantContent E text kws) \<le> 3000
   \<and> extractRelevantContent E text kws
       = take 3000 (joinWith excerptSeparator (concat (map (\<lambda>kw.
           excerptLoop text (toLowerCase E text) kw (toLowerCase E kw) 0 0) kws)))
   \<and> (\<exists>idxs. excerptLoop text (toLowerCase E text) kw (toLowerCase E kw) 0 0
                = map (excerptAt text kw) idxs
              \<and> length idxs \<le> 3
              \<and> occurrenceChain (toLowerCase E text) (toLowerCase E kw) (length kw) 0 3 idxs)
   \<and> excerptAt text kw i
       = (if 200 < i then js ''...'' else [])
         @ trim (substring text (i - 200) (min (length text) (i + length kw + 200)))
         @ (if i + length kw + 200 < length text then js ''...'' else [])
   \<and> (clippedAtStart i \<longrightarrow> \<not> 200 < i)
   \<and> (clippedAtEnd text kw i \<longrightarrow> \<not> i + length kw + 200 < length text)"
proof -
  have 1: "length (extractRelevantContent E text kws) \<le> 3000"
    unfolding extractRelevantContent_eq by simp
  have 3: "\<exists>idxs. excerptLoop text (toLowerCase E text) kw (toLowerCase E kw) 0 0
                = map (excerptAt text kw) idxs
              \<and> length idxs \<le> 3
              \<and> occurrenceChain (toLowerCase E text) (toLowerCase E kw) (length kw) 0 3 idxs"
    using excerptLoop_chain[of "text" "toLowerCase E text" kw "toLowerCase E kw" 0 0]
    by (simp add: MAX_OCCURRENCES_def)
  have 5: "clippedAtStart i \<longrightarrow> \<not> 200 < i"
    by (simp add: clippedAtStart_def CONTEXT_RADIUS_def)
  have 6: "clippedAtEnd text kw i \<longrightarrow> \<not> i + length kw + 200 < length text"
    by (simp add: clippedAtEnd_def CONTEXT_RADIUS_def)
  from 1 extractRelevantContent_eq[of E "text" kws] 3 excerptAt_eq[of "text" kw i] 5 6
  show ?thesis by (intro conjI)
qed

theorem excerpt_bounded_and_marked_witness:
  "length (extractRelevantContent sampleEnv (js ''New AI model'') [js ''AI'']) \<le> 3000
   \<and> extractRelevantContent sampleEnv (js ''New AI model'') [js ''AI''] = js ''New AI model''
   \<and> excerptLoop (js ''New AI model'') (toLowerCase sampleEnv (js ''New AI model'')) (js ''AI'')
         (toLowerCase sampleEnv (js ''AI'')) 0 0
       = map (excerptAt (js ''New AI model'') (js ''AI'')) [4]
   \<and> occurrenceChain (toLowerCase sampleEnv (js ''New AI model''))
         (toLowerCase sampleEnv (js ''AI'')) (length (js ''AI'')) 0 3 [4]
   \<and> clippedAtStart 4 \<and> \<not> (200 :: nat) < 4
   \<and> excerptAt (js ''New AI model'') (js ''AI'') 4 = js ''New AI model''"
proof -
  note T = excerpt_bounded_and_marked[of sampleEnv "js ''New AI model''" "[js ''AI'']" "js ''AI''" 4]
  from T have 1: "length (extractRelevantContent sampleEnv (js ''New AI model'') [js ''AI'']) \<le> 3000"
    by (elim conjE)
  have 2: "extractRelevantContent sampleEnv (js ''New AI model'') [js ''AI''] = js ''New AI model''"
    by code_simp
  have 3: "excerptLoop (js ''New AI model'') (toLowerCase sampleEnv (js ''New AI model''))
             (js ''AI'') (toLowerCase sampleEnv (js ''AI'')) 0 0
           = map (excerptAt (js ''New AI model'') (js ''AI'')) [4]"
    by code_simp
  have "indexOf (toLowerCase sampleEnv (js ''New AI model'')) (toLowerCase sampleEnv (js ''AI'')) 0
        = Some 4"
    by code_simp
  then have f: "firstOccurrence (toLowerCase sampleEnv (js ''New AI model''))
                  (toLowerCase sampleEnv (js ''AI'')) 0 4"
    by (simp only: indexOf_Some)
  have "indexOf (toLowerCase sampleEnv (js ''New AI model'')) (toLowerCase sampleEnv (js ''AI''))
          (4 + length (js ''AI'')) = None"
    by code_simp
  then have n: "noOccurrence (toLowerCase sampleEnv (js ''New AI model''))
                  (toLowerCase sampleEnv (js ''AI'')) (4 + length (js ''AI''))"
    by (simp only: indexOf_None)
  have 4: "occurrenceChain (toLowerCase sampleEnv (js ''New AI model''))
             (toLowerCase sampleEnv (js ''AI'')) (length (js ''AI'')) 0 3 [4]"
    using f n by simp
  have 5: "clippedAtStart 4"
    by (simp add: clippedAtStart_def CONTEXT_RADIUS_def)
  from T have "clippedAtStart 4 \<longrightarrow> \<not> (200 :: nat) < 4"
    by (elim conjE)
  with 5 have 6: "\<not> (200 :: nat) < 4" by blast
  have t: "trim (substring (js ''New AI model'') (4 - 200)
             (min (length (js ''New AI model'')) (4 + length (js ''AI'') + 200)))
           = js ''New AI model''"
    by code_simp
  have l: "\<not> 4 + length (js ''AI'') + 200 < length (js ''New AI model'')"
    by (simp add: js_def)
  from T have "excerptAt (js ''New AI model'') (js ''AI'') 4
       = (if 200 < (4 :: nat) then js ''...'' else [])
         @ trim (substring (js ''New AI model'') (4 - 200)
              (min (length (js ''New AI model'')) (4 + length (js ''AI'') + 200)))
         @ (if 4 + length (js ''AI'') + 200 < length (js ''New AI model'') then js ''...'' else [])"
    by (elim conjE)
  then have 7: "excerptAt (js ''New AI model'') (js ''AI'') 4 = js ''New AI model''"
    unfolding t using l by simp
  show ?thesis
    apply (intro conjI)
          apply (rule 1)
         apply (rule 2)
        apply (rule 3)
       apply (rule 4)
      apply (rule 5)
     apply (rule 6)
    apply (rule 7)
    done
qed

text \<open>
  The claim as stated fails in both directions. For the text \<open>AI\<close> and the keyword
  \<open>AI\<close> the window is clipped by the text boundary on both sides, and the excerpt
  carries no ellipsis. For a text with 201 code units before and after the keyword the
  window is clipped on neither side, and the excerpt carries an ellipsis on both.
\<close>

theorem excerpt_ellipsis_counterexample:
  "indexOf (toLowerCase sampleEnv (js ''AI'')) (toLowerCase sampleEnv (js ''AI'')) 0 = Some 0
   \<and> clippedAtStart 0 \<and> clippedAtEnd (js ''AI'') (js ''AI'') 0
   \<and> excerptAt (js ''AI'') (js ''AI'') 0 = js ''AI''
   \<and> extractRelevantContent sampleEnv (js ''AI'') [js ''AI''] = js ''AI''
   \<and> \<not> clippedAtStart 201
   \<and> \<not> clippedAtEnd (replicate 201 0x78 @ js ''AI'' @ replicate 201 0x79) (js ''AI'') 201
   \<and> excerptAt (replicate 201 0x78 @ js ''AI'' @ replicate 201 0x79) (js ''AI'') 201
       = js ''...'' @ replicate 200 0x78 @ js ''AI'' @ replicate 200 0x79 @ js ''...''"
proof -
  have 1: "indexOf (toLowerCase sampleEnv (js ''AI'')) (toLowerCase sampleEnv (js ''AI'')) 0 = Some 0"
    by code_simp
  have 2: "clippedAtStart 0"
    by (simp add: clippedAtStart_def CONTEXT_RADIUS_def)
  have 3: "clippedAtEnd (js ''AI'') (js ''AI'') 0"
    by (simp add: clippedAtEnd_def CONTEXT_RADIUS_def js_def)
  have 4: "excerptAt (js ''AI'') (js ''AI'') 0 = js ''AI''"
    by code_simp
  have 5: "extractRelevantContent sampleEnv (js ''AI'') [js ''AI''] = js ''AI''"
    by code_simp
  have 6: "\<not> clippedAtStart 201"
    by (simp add: clippedAtStart_def CONTEXT_RADIUS_def)
  have 7: "\<not> clippedAtEnd (replicate 201 0x78 @ js ''AI'' @ replicate 201 0x79) (js ''AI'') 201"
    by (simp add: clippedAtEnd_def CONTEXT_RADIUS_def js_def)
  have 8: "excerptAt (replicate 201 0x78 @ js ''AI'' @ replicate 201 0x79) (js ''AI'') 201
           = js ''...'' @ replicate 200 0x78 @ js ''AI'' @ replicate 200 0x79 @ js ''...''"
    by code_simp
  show ?thesis
    apply (intro conjI)
           apply (rule 1)
          apply (rule 2)
         apply (rule 3)
        apply (rule 4)
       apply (rule 5)
      apply (rule 6)
     apply (rule 7)
    apply (rule 8)
    done
qed

end
